theory Spec2Isabelle
  imports Complex_Main
begin

section \<open>Python values used by the player\<close>

text \<open>
  The exceptions the modelled code can raise: \<open>random.choice\<close> on an empty sequence and
  an index out of range raise IndexError, \<open>max\<close> of an empty sequence, \<open>list.index\<close> of an
  absent element and \<open>math.log 0\<close> raise ValueError, a division by zero raises
  ZeroDivisionError, and reading \<open>.visits\<close> of \<open>None\<close> raises AttributeError.
\<close>

datatype error = IndexError | ValueError | ZeroDivisionError | AttributeError

text \<open>
  The numbers the alpha-beta search compares: \<open>float("-inf")\<close>, \<open>float("inf")\<close> and the
  finite numbers in between (the integers of \<open>score\<close>, the numbers of \<open>utility\<close>).
\<close>

datatype ext = MInf | Fin real | PInf

instantiation ext :: linorder
begin

fun less_eq_ext :: "ext \<Rightarrow> ext \<Rightarrow> bool" where
  "less_eq_ext MInf y = True"
| "less_eq_ext (Fin x) MInf = False"
| "less_eq_ext (Fin x) (Fin y) = (x \<le> y)"
| "less_eq_ext (Fin x) PInf = True"
| "less_eq_ext PInf MInf = False"
| "less_eq_ext PInf (Fin y) = False"
| "less_eq_ext PInf PInf = True"

definition less_ext :: "ext \<Rightarrow> ext \<Rightarrow> bool" where
  "less_ext x y = (x \<le> y \<and> \<not> y \<le> x)"

instance
proof
  fix x y z :: ext
  show "(x < y) = (x \<le> y \<and> \<not> y \<le> x)" by (simp add: less_ext_def)
  show "x \<le> x" by (cases x) simp_all
  show "x \<le> y \<Longrightarrow> y \<le> z \<Longrightarrow> x \<le> z" by (cases x; cases y; cases z) simp_all
  show "x \<le> y \<Longrightarrow> y \<le> x \<Longrightarrow> x = y" by (cases x; cases y) simp_all
  show "x \<le> y \<or> y \<le> x" by (cases x; cases y) auto
qed

end

text \<open>
  The random source: the stream of the draws to come. \<open>random.choice xs\<close> takes the next
  draw \<open>d\<close>, returns \<open>xs[d mod len xs]\<close> (every element of \<open>xs\<close> for some draw) and raises
  IndexError on an empty sequence.
\<close>

type_synonym rng = "nat \<Rightarrow> nat"

definition random_choice :: "rng \<Rightarrow> 'x list \<Rightarrow> error + ('x \<times> rng)" where
  "random_choice r xs =
     (if xs = [] then Inl IndexError
      else Inr (xs ! (r 0 mod length xs), \<lambda>n. r (Suc n)))"

text \<open>\<open>xs.index(x)\<close>: the first position of \<open>x\<close>, ValueError when there is none.\<close>

fun index_of :: "'x list \<Rightarrow> 'x \<Rightarrow> error + nat" where
  "index_of [] x = Inl ValueError"
| "index_of (y # ys) x =
     (if y = x then Inr 0
      else (case index_of ys x of Inl e \<Rightarrow> Inl e | Inr k \<Rightarrow> Inr (Suc k)))"

text \<open>\<open>xs[k]\<close> for a position \<open>k \<ge> 0\<close>.\<close>

definition list_get :: "'x list \<Rightarrow> nat \<Rightarrow> error + 'x" where
  "list_get xs k = (if k < length xs then Inr (xs ! k) else Inl IndexError)"

text \<open>\<open>xs[-1]\<close>.\<close>

definition list_last :: "'x list \<Rightarrow> error + 'x" where
  "list_last xs = (if xs = [] then Inl IndexError else Inr (last xs))"

text \<open>\<open>p[i]\<close> on a tuple of two: the positions 0, 1 and, from the end, -2, -1.\<close>

definition tuple_get :: "'l \<times> 'l \<Rightarrow> int \<Rightarrow> error + 'l" where
  "tuple_get p i =
     (if i = 0 \<or> i = - 2 then Inr (fst p)
      else if i = 1 \<or> i = - 1 then Inr (snd p)
      else Inl IndexError)"

text \<open>
  \<open>max(xs, key=f)\<close>: the keys are computed in order, a later element replaces the best one
  only when its key is strictly greater, so the first maximal element is returned;
  ValueError on an empty sequence.
\<close>

fun max_key :: "('x \<Rightarrow> error + real) \<Rightarrow> 'x \<Rightarrow> real \<Rightarrow> 'x list \<Rightarrow> error + 'x" where
  "max_key f b kb [] = Inr b"
| "max_key f b kb (x # xs) =
     (case f x of
        Inl e \<Rightarrow> Inl e
      | Inr kx \<Rightarrow> if kx > kb then max_key f x kx xs else max_key f b kb xs)"

definition py_max :: "('x \<Rightarrow> error + real) \<Rightarrow> 'x list \<Rightarrow> error + 'x" where
  "py_max f xs =
     (case xs of
        [] \<Rightarrow> Inl ValueError
      | x # rest \<Rightarrow> (case f x of Inl e \<Rightarrow> Inl e | Inr kx \<Rightarrow> max_key f x kx rest))"

section \<open>The game state the player is given\<close>

text \<open>
  The state class of the game library is not part of the player's module: its methods are
  the fields of a record and every function below takes the record.
  \<open>locs\<close> is the pair of the two players' locations, \<open>liberties\<close> the open cells around a
  location, \<open>has_liberties\<close> the state's \<open>_has_liberties\<close>.
\<close>

record ('s, 'a, 'l) game =
  actions :: "'s \<Rightarrow> 'a list"
  result :: "'s \<Rightarrow> 'a \<Rightarrow> 's"
  terminal_test :: "'s \<Rightarrow> bool"
  utility :: "'s \<Rightarrow> int \<Rightarrow> ext"
  player :: "'s \<Rightarrow> int"
  locs :: "'s \<Rightarrow> 'l \<times> 'l"
  liberties :: "'s \<Rightarrow> 'l \<Rightarrow> 'a list"
  has_liberties :: "'s \<Rightarrow> int \<Rightarrow> bool"

section \<open>UTCNode\<close>

text \<open>
  A node object is a record; the objects live in a heap, a list indexed by address, and
  \<open>children\<close> and \<open>parent\<close> hold addresses. A new object gets the next free address.
  \<open>reward\<close> is a float holding a sum of +1 and -1, read here as a real number.
\<close>

record ('s, 'a) UTCNode =
  visits :: nat
  reward :: real
  state :: 's
  children :: "nat list"
  children_actions :: "'a list"
  parent :: "nat option"

type_synonym ('s, 'a) heap = "('s, 'a) UTCNode list"

definition UTCNode_init :: "'s \<Rightarrow> nat option \<Rightarrow> ('s, 'a) UTCNode" where
  "UTCNode_init s p =
     \<lparr>visits = 1, reward = 0, state = s, children = [], children_actions = [], parent = p\<rparr>"

definition add_child :: "('s, 'a) heap \<Rightarrow> nat \<Rightarrow> 's \<Rightarrow> 'a \<Rightarrow> ('s, 'a) heap" where
  "add_child h self s action =
     (let child = length h;
          h1 = h @ [UTCNode_init s (Some self)];
          h2 = h1[self := (h1 ! self)\<lparr>children := children (h1 ! self) @ [child]\<rparr>]
      in h2[self := (h2 ! self)\<lparr>children_actions := children_actions (h2 ! self) @ [action]\<rparr>])"

definition is_expanded :: "('s, 'a, 'l) game \<Rightarrow> ('s, 'a) heap \<Rightarrow> nat \<Rightarrow> bool" where
  "is_expanded g h self =
     (if length (children_actions (h ! self)) = length (actions g (state (h ! self)))
      then True else False)"

section \<open>Monte Carlo tree search\<close>

definition exploitation :: "('s, 'a) heap \<Rightarrow> nat \<Rightarrow> error + real" where
  "exploitation h node =
     (if visits (h ! node) = 0 then Inl ZeroDivisionError
      else Inr (reward (h ! node) / real (visits (h ! node))))"

definition exploration :: "('s, 'a) heap \<Rightarrow> nat \<Rightarrow> error + real" where
  "exploration h node =
     (case parent (h ! node) of
        None \<Rightarrow> Inl AttributeError
      | Some p \<Rightarrow>
          if visits (h ! p) = 0 then Inl ValueError
          else if visits (h ! node) = 0 then Inl ZeroDivisionError
          else if ln (real (visits (h ! p))) / real (visits (h ! node)) < 0 then Inl ValueError
          else Inr (sqrt (ln (real (visits (h ! p))) / real (visits (h ! node)))))"

text \<open>The key of \<open>best_child\<close>'s \<open>max\<close>.\<close>

definition uct :: "('s, 'a) heap \<Rightarrow> real \<Rightarrow> nat \<Rightarrow> error + real" where
  "uct h c_factor child =
     (case exploitation h child of
        Inl e \<Rightarrow> Inl e
      | Inr x \<Rightarrow>
          (case exploration h child of
             Inl e \<Rightarrow> Inl e
           | Inr y \<Rightarrow> Inr (x + c_factor * y)))"

definition best_child :: "('s, 'a) heap \<Rightarrow> nat \<Rightarrow> real \<Rightarrow> error + nat" where
  "best_child h node c_factor = py_max (uct h c_factor) (children (h ! node))"

definition expand ::
  "('s, 'a, 'l) game \<Rightarrow> ('s, 'a) heap \<Rightarrow> nat \<Rightarrow> rng \<Rightarrow> error + (('s, 'a) heap \<times> nat \<times> rng)" where
  "expand g h node r =
     (case random_choice r
             (filter (\<lambda>a. a \<notin> set (children_actions (h ! node))) (actions g (state (h ! node)))) of
        Inl e \<Rightarrow> Inl e
      | Inr (action, r') \<Rightarrow>
          (let new_state = result g (state (h ! node)) action;
               h' = add_child h node new_state action
           in (case list_last (children (h' ! node)) of
                 Inl e \<Rightarrow> Inl e
               | Inr c \<Rightarrow> Inr (h', c, r'))))"

text \<open>
  The loops that follow run until the program's own condition ends them: each is a
  partial function, \<open>None\<close> being a run that never returns.
\<close>

partial_function (option) tree_policy ::
  "('s, 'a, 'l) game \<Rightarrow> ('s, 'a) heap \<Rightarrow> nat \<Rightarrow> rng \<Rightarrow> (error + (('s, 'a) heap \<times> nat \<times> rng)) option" where
  "tree_policy g h node r =
     (if \<not> terminal_test g (state (h ! node)) then
        (if \<not> is_expanded g h node then Some (expand g h node r)
         else (case best_child h node (sqrt 2) of
                 Inl e \<Rightarrow> Some (Inl e)
               | Inr c \<Rightarrow> tree_policy g h c r))
      else Some (Inr (h, node, r)))"

partial_function (option) playout ::
  "('s, 'a, 'l) game \<Rightarrow> 's \<Rightarrow> rng \<Rightarrow> (error + ('s \<times> rng)) option" where
  "playout g s r =
     (if \<not> terminal_test g s then
        (case random_choice r (actions g s) of
           Inl e \<Rightarrow> Some (Inl e)
         | Inr (action, r') \<Rightarrow> playout g (result g s action) r')
      else Some (Inr (s, r)))"

definition default_policy ::
  "('s, 'a, 'l) game \<Rightarrow> 's \<Rightarrow> rng \<Rightarrow> (error + (real \<times> rng)) option" where
  "default_policy g s r =
     (let player_id = player g s in
      (case playout g s r of
         None \<Rightarrow> None
       | Some (Inl e) \<Rightarrow> Some (Inl e)
       | Some (Inr (s', r')) \<Rightarrow>
           Some (Inr (if has_liberties g s' player_id then - 1 else 1, r'))))"

partial_function (option) backprop ::
  "('s, 'a) heap \<Rightarrow> nat option \<Rightarrow> real \<Rightarrow> ('s, 'a) heap option" where
  "backprop h node rw =
     (case node of
        None \<Rightarrow> Some h
      | Some i \<Rightarrow>
          (let h1 = h[i := (h ! i)\<lparr>reward := reward (h ! i) + rw\<rparr>];
               h2 = h1[i := (h1 ! i)\<lparr>visits := visits (h1 ! i) + 1\<rparr>]
           in backprop h2 (parent (h2 ! i)) (- rw)))"

text \<open>One turn of the loop of \<open>MCTS_search\<close>; the root node is the object at address 0.\<close>

definition mcts_iteration ::
  "('s, 'a, 'l) game \<Rightarrow> ('s, 'a) heap \<Rightarrow> rng \<Rightarrow> (error + (('s, 'a) heap \<times> rng)) option" where
  "mcts_iteration g h r =
     (case tree_policy g h 0 r of
        None \<Rightarrow> None
      | Some (Inl e) \<Rightarrow> Some (Inl e)
      | Some (Inr (h1, leaf_node, r1)) \<Rightarrow>
          (case default_policy g (state (h1 ! leaf_node)) r1 of
             None \<Rightarrow> None
           | Some (Inl e) \<Rightarrow> Some (Inl e)
           | Some (Inr (rw, r2)) \<Rightarrow>
               (case backprop h1 (Some leaf_node) rw of
                  None \<Rightarrow> None
                | Some h2 \<Rightarrow> Some (Inr (h2, r2)))))"

text \<open>
  The clock is outside the program: \<open>n\<close> is the number of times the test
  \<open>time.time() < time_end\<close> succeeds before it fails, that is the number of turns of the
  loop the deadline lets through (0 when the deadline has passed at the first test).
\<close>

fun mcts_loop ::
  "('s, 'a, 'l) game \<Rightarrow> nat \<Rightarrow> ('s, 'a) heap \<Rightarrow> rng \<Rightarrow> (error + (('s, 'a) heap \<times> rng)) option" where
  "mcts_loop g 0 h r = Some (Inr (h, r))"
| "mcts_loop g (Suc n) h r =
     (case mcts_iteration g h r of
        None \<Rightarrow> None
      | Some (Inl e) \<Rightarrow> Some (Inl e)
      | Some (Inr (h', r')) \<Rightarrow> mcts_loop g n h' r')"

text \<open>The last line of \<open>MCTS_search\<close>.\<close>

definition root_decision :: "('s, 'a) heap \<Rightarrow> real \<Rightarrow> error + 'a" where
  "root_decision h c_factor =
     (case best_child h 0 c_factor of
        Inl e \<Rightarrow> Inl e
      | Inr c \<Rightarrow>
          (case index_of (children (h ! 0)) c of
             Inl e \<Rightarrow> Inl e
           | Inr k \<Rightarrow> list_get (children_actions (h ! 0)) k))"

definition MCTS_search ::
  "('s, 'a, 'l) game \<Rightarrow> 's \<Rightarrow> nat \<Rightarrow> rng \<Rightarrow> (error + 'a) option" where
  "MCTS_search g s n r =
     (let h0 = [UTCNode_init s None] in
      if terminal_test g (state (h0 ! 0)) then
        Some (case random_choice r (actions g s) of Inl e \<Rightarrow> Inl e | Inr (a, r') \<Rightarrow> Inr a)
      else
        (case mcts_loop g n h0 r of
           None \<Rightarrow> None
         | Some (Inl e) \<Rightarrow> Some (Inl e)
         | Some (Inr (h, r')) \<Rightarrow> Some (root_decision h (sqrt 2))))"

text \<open>
  \<open>MCTS_search\<close> once more, returning with the action what the call leaves behind: the
  tree as it is when the function returns and the random source after the draws made.
\<close>

definition MCTS_run ::
  "('s, 'a, 'l) game \<Rightarrow> 's \<Rightarrow> nat \<Rightarrow> rng \<Rightarrow> (error + ('a \<times> ('s, 'a) heap \<times> rng)) option" where
  "MCTS_run g s n r =
     (let h0 = [UTCNode_init s None] in
      if terminal_test g (state (h0 ! 0)) then
        Some (case random_choice r (actions g s) of
                Inl e \<Rightarrow> Inl e
              | Inr (a, r') \<Rightarrow> Inr (a, h0, r'))
      else
        (case mcts_loop g n h0 r of
           None \<Rightarrow> None
         | Some (Inl e) \<Rightarrow> Some (Inl e)
         | Some (Inr (h, r')) \<Rightarrow>
             Some (case root_decision h (sqrt 2) of
                     Inl e \<Rightarrow> Inl e
                   | Inr a \<Rightarrow> Inr (a, h, r'))))"

section \<open>Alpha-beta search\<close>

definition score :: "('s, 'a, 'l) game \<Rightarrow> 's \<Rightarrow> int \<Rightarrow> error + int" where
  "score g s player_id =
     (case tuple_get (locs g s) player_id of
        Inl e \<Rightarrow> Inl e
      | Inr my_loc \<Rightarrow>
          (case tuple_get (locs g s) (1 - player_id) of
             Inl e \<Rightarrow> Inl e
           | Inr opp_loc \<Rightarrow>
               Inr (int (length (liberties g s my_loc)) - int (length (liberties g s opp_loc)))))"

definition as_number :: "error + int \<Rightarrow> error + ext" where
  "as_number r = (case r of Inl e \<Rightarrow> Inl e | Inr n \<Rightarrow> Inr (Fin (real_of_int n)))"

text \<open>
  \<open>min_value\<close> and \<open>max_value\<close> call each other from inside their loops and need not
  return (a depth below 0 never meets the test \<open>depth == 0\<close>), so the four pieces, the two
  functions and their two loops, are the four cases of one partial function.
  \<open>MinLoop s as depth v alpha beta\<close> is the loop of \<open>min_value\<close> with the actions \<open>as\<close> still
  to come.
\<close>

datatype ('s, 'a) call =
    MinValue 's int ext ext
  | MaxValue 's int ext ext
  | MinLoop 's "'a list" int ext ext ext
  | MaxLoop 's "'a list" int ext ext ext

partial_function (option) ab_run ::
  "('s, 'a, 'l) game \<Rightarrow> int \<Rightarrow> ('s, 'a) call \<Rightarrow> (error + ext) option" where
  "ab_run g player_id c =
     (case c of
        MinValue s depth alpha beta \<Rightarrow>
          (if terminal_test g s then Some (Inr (utility g s player_id))
           else if depth = 0 then Some (as_number (score g s player_id))
           else ab_run g player_id (MinLoop s (actions g s) depth PInf alpha beta))
      | MinLoop s as depth v alpha beta \<Rightarrow>
          (case as of
             [] \<Rightarrow> Some (Inr v)
           | a # rest \<Rightarrow>
               Option.bind (ab_run g player_id (MaxValue (result g s a) (depth - 1) alpha beta))
                 (\<lambda>r. case r of
                    Inl e \<Rightarrow> Some (Inl e)
                  | Inr w \<Rightarrow>
                      (let v' = min v w in
                       if v' \<le> alpha then Some (Inr v')
                       else ab_run g player_id (MinLoop s rest depth v' alpha (min beta v')))))
      | MaxValue s depth alpha beta \<Rightarrow>
          (if terminal_test g s then Some (Inr (utility g s player_id))
           else if depth = 0 then Some (as_number (score g s player_id))
           else ab_run g player_id (MaxLoop s (actions g s) depth MInf alpha beta))
      | MaxLoop s as depth v alpha beta \<Rightarrow>
          (case as of
             [] \<Rightarrow> Some (Inr v)
           | a # rest \<Rightarrow>
               Option.bind (ab_run g player_id (MinValue (result g s a) (depth - 1) alpha beta))
                 (\<lambda>r. case r of
                    Inl e \<Rightarrow> Some (Inl e)
                  | Inr w \<Rightarrow>
                      (let v' = max v w in
                       if v' \<ge> beta then Some (Inr v')
                       else ab_run g player_id (MaxLoop s rest depth v' (max alpha v') beta)))))"

definition min_loop ::
  "('s, 'a, 'l) game \<Rightarrow> 's \<Rightarrow> 'a list \<Rightarrow> int \<Rightarrow> int \<Rightarrow> ext \<Rightarrow> ext \<Rightarrow> ext
     \<Rightarrow> (error + ext) option" where
  "min_loop g s as player_id depth v alpha beta =
     ab_run g player_id (MinLoop s as depth v alpha beta)"

definition max_loop ::
  "('s, 'a, 'l) game \<Rightarrow> 's \<Rightarrow> 'a list \<Rightarrow> int \<Rightarrow> int \<Rightarrow> ext \<Rightarrow> ext \<Rightarrow> ext
     \<Rightarrow> (error + ext) option" where
  "max_loop g s as player_id depth v alpha beta =
     ab_run g player_id (MaxLoop s as depth v alpha beta)"

definition min_value ::
  "('s, 'a, 'l) game \<Rightarrow> 's \<Rightarrow> int \<Rightarrow> int \<Rightarrow> ext \<Rightarrow> ext \<Rightarrow> (error + ext) option" where
  "min_value g s player_id depth alpha beta = ab_run g player_id (MinValue s depth alpha beta)"

definition max_value ::
  "('s, 'a, 'l) game \<Rightarrow> 's \<Rightarrow> int \<Rightarrow> int \<Rightarrow> ext \<Rightarrow> ext \<Rightarrow> (error + ext) option" where
  "max_value g s player_id depth alpha beta = ab_run g player_id (MaxValue s depth alpha beta)"

text \<open>
  The loop of \<open>alpha_beta_search\<close> over the actions still to come, on its three variables
  \<open>(alpha, best_score, best_move)\<close>; \<open>self_id\<close> is the player's \<open>self.player_id\<close>.
\<close>

fun root_loop ::
  "('s, 'a, 'l) game \<Rightarrow> int \<Rightarrow> 's \<Rightarrow> int \<Rightarrow> 'a list \<Rightarrow> ext \<times> ext \<times> 'a option
     \<Rightarrow> (error + (ext \<times> ext \<times> 'a option)) option" where
  "root_loop g self_id s depth [] vars = Some (Inr vars)"
| "root_loop g self_id s depth (a # rest) (alpha, best_score, best_move) =
     (case min_value g (result g s a) self_id (depth - 1) alpha PInf of
        None \<Rightarrow> None
      | Some (Inl e) \<Rightarrow> Some (Inl e)
      | Some (Inr v) \<Rightarrow>
          root_loop g self_id s depth rest
            (max alpha v, if v \<ge> best_score then (v, Some a) else (best_score, best_move)))"

definition alpha_beta_search ::
  "('s, 'a, 'l) game \<Rightarrow> int \<Rightarrow> 's \<Rightarrow> int \<Rightarrow> (error + 'a option) option" where
  "alpha_beta_search g self_id s depth =
     (case root_loop g self_id s depth (actions g s) (MInf, MInf, None) of
        None \<Rightarrow> None
      | Some (Inl e) \<Rightarrow> Some (Inl e)
      | Some (Inr (alpha, best_score, best_move)) \<Rightarrow> Some (Inr best_move))"

section \<open>Minimax without pruning\<close>

text \<open>
  The search the spec compares \<open>alpha_beta_search\<close> with, written from the spec's words: the
  depth-limited minimax value of a state, the maximum (\<open>mx\<close>) or the minimum over all the
  legal actions, none left out; a terminal state has its utility and a state at depth 0
  its static evaluation.
\<close>

fun pick :: "bool \<Rightarrow> ext \<Rightarrow> (error + ext) list \<Rightarrow> error + ext" where
  "pick mx v [] = Inr v"
| "pick mx v (Inl e # rs) = Inl e"
| "pick mx v (Inr w # rs) = pick mx (if mx then max v w else min v w) rs"

fun minimax :: "('s, 'a, 'l) game \<Rightarrow> int \<Rightarrow> bool \<Rightarrow> nat \<Rightarrow> 's \<Rightarrow> error + ext" where
  "minimax g player_id mx 0 s =
     (if terminal_test g s then Inr (utility g s player_id)
      else as_number (score g s player_id))"
| "minimax g player_id mx (Suc d) s =
     (if terminal_test g s then Inr (utility g s player_id)
      else pick mx (if mx then MInf else PInf)
             (map (\<lambda>a. minimax g player_id (\<not> mx) d (result g s a)) (actions g s)))"

section \<open>Paths in the tree\<close>

text \<open>
  \<open>ancestor h i k\<close> is the node \<open>k\<close> steps up from \<open>i\<close> along \<open>parent\<close>, if there is one.
  In a heap built by \<open>UTCNode\<close> and \<open>add_child\<close> a node is allocated after its parent
  (\<open>parents_below\<close>).
\<close>

fun ancestor :: "('s, 'a) heap \<Rightarrow> nat \<Rightarrow> nat \<Rightarrow> nat option" where
  "ancestor h i 0 = Some i"
| "ancestor h i (Suc k) = (case parent (h ! i) of None \<Rightarrow> None | Some p \<Rightarrow> ancestor h p k)"

definition parents_below :: "('s, 'a) heap \<Rightarrow> bool" where
  "parents_below h = (\<forall>i<length h. \<forall>p. parent (h ! i) = Some p \<longrightarrow> p < i)"

section \<open>Well-formed trees and games\<close>

text \<open>
  What the constructor and \<open>add_child\<close> establish for every node of the tree: at least one
  visit, one recorded action per child, no action recorded twice and only legal ones,
  children allocated after their parent and pointing back to it.
\<close>

definition node_ok :: "('s, 'a, 'l) game \<Rightarrow> ('s, 'a) heap \<Rightarrow> nat \<Rightarrow> bool" where
  "node_ok g h i =
     (1 \<le> visits (h ! i) \<and>
      length (children (h ! i)) = length (children_actions (h ! i)) \<and>
      distinct (children_actions (h ! i)) \<and>
      set (children_actions (h ! i)) \<subseteq> set (actions g (state (h ! i))) \<and>
      distinct (children (h ! i)) \<and>
      (\<forall>c\<in>set (children (h ! i)). i < c \<and> c < length h \<and> parent (h ! c) = Some i) \<and>
      (\<forall>p. parent (h ! i) = Some p \<longrightarrow> p < i))"

definition tree_ok :: "('s, 'a, 'l) game \<Rightarrow> ('s, 'a) heap \<Rightarrow> bool" where
  "tree_ok g h = (h \<noteq> [] \<and> (\<forall>i<length h. node_ok g h i))"

text \<open>
  What the searches below ask of the game library: a state that is not terminal has a
  legal action, lists no action twice, and every move from it leads to a state of smaller
  \<open>rank\<close> (in the game the player is written for, the number of open cells), so that every
  playout ends.
\<close>

definition game_ok :: "('s, 'a, 'l) game \<Rightarrow> ('s \<Rightarrow> nat) \<Rightarrow> bool" where
  "game_ok g rank =
     (\<forall>s. \<not> terminal_test g s \<longrightarrow>
        actions g s \<noteq> [] \<and> distinct (actions g s) \<and>
        (\<forall>a\<in>set (actions g s). rank (result g s a) < rank s))"

text \<open>\<open>extends h h'\<close>: the heap \<open>h'\<close> is \<open>h\<close> after more search; nodes keep their state and
  parent, visit counts and child lists only grow.\<close>

definition extends :: "('s, 'a) heap \<Rightarrow> ('s, 'a) heap \<Rightarrow> bool" where
  "extends h h' =
     (length h \<le> length h' \<and>
      (\<forall>j<length h.
         state (h' ! j) = state (h ! j) \<and> parent (h' ! j) = parent (h ! j) \<and>
         visits (h ! j) \<le> visits (h' ! j) \<and>
         (\<exists>cs. children (h' ! j) = children (h ! j) @ cs) \<and>
         (\<exists>as. children_actions (h' ! j) = children_actions (h ! j) @ as)))"

section \<open>Small games to run the player on\<close>

text \<open>
  In the games below a state is a number, an action is the number of the state it leads
  to, and player 0 is the player to move at state 0.
  \<open>fork\<close>: at state 0 the moves 1 and 2, both to terminal states where the player to move
  has no liberty left. State 3 is terminal in the other way: the player to move still has
  the moves 4 and 5, the opponent has none.
\<close>

definition zero_draws :: rng where
  "zero_draws = (\<lambda>n. 0)"

definition fork :: "(nat, nat, nat) game" where
  "fork =
     \<lparr>actions = (\<lambda>s. if s = 0 then [1, 2] else if s = 3 then [4, 5] else []),
      result = (\<lambda>s a. a),
      terminal_test = (\<lambda>s. s \<noteq> 0),
      utility = (\<lambda>s p. if p = 0 then PInf else MInf),
      player = (\<lambda>s. if s = 0 then 0 else 1),
      locs = (\<lambda>s. (0, 1)),
      liberties =
        (\<lambda>s l. if s = 0 \<and> l = 0 then [1, 2] else if s = 3 \<and> l = 1 then [4, 5] else []),
      has_liberties = (\<lambda>s p. (s = 0 \<and> p = 0) \<or> (s = 3 \<and> p = 1))\<rparr>"

text \<open>
  \<open>three\<close>: at state 0 the moves 1, 2 and 3, each to a terminal state, of utility +1, -1
  and +1 for player 0.
\<close>

definition three :: "(nat, nat, nat) game" where
  "three =
     \<lparr>actions = (\<lambda>s. if s = 0 then [1, 2, 3] else []),
      result = (\<lambda>s a. a),
      terminal_test = (\<lambda>s. s \<noteq> 0),
      utility = (\<lambda>s p. if (s = 2) = (p = 0) then Fin (- 1) else Fin 1),
      player = (\<lambda>s. if s = 0 then 0 else 1),
      locs = (\<lambda>s. (0, 1)),
      liberties = (\<lambda>s l. if s = 0 \<and> l = 0 then [1, 2, 3] else []),
      has_liberties = (\<lambda>s p. s = 0 \<and> p = 0)\<rparr>"

text \<open>
  \<open>trap\<close>: at state 0 player 0 has the moves 1 and 2. Move 1 wins at once (a terminal
  state of utility +1 for player 0). After move 2 the opponent chooses between the moves 3
  (utility +1 for player 0) and 4 (utility -1 for player 0), so move 2 is worth -1.
\<close>

definition trap :: "(nat, nat, nat) game" where
  "trap =
     \<lparr>actions = (\<lambda>s. if s = 0 then [1, 2] else if s = 2 then [3, 4] else []),
      result = (\<lambda>s a. a),
      terminal_test = (\<lambda>s. s \<noteq> 0 \<and> s \<noteq> 2),
      utility = (\<lambda>s p. if (s = 4) = (p = 0) then Fin (- 1) else Fin 1),
      player = (\<lambda>s. if s = 2 then 1 else 0),
      locs = (\<lambda>s. (0, 1)),
      liberties =
        (\<lambda>s l. if s = 0 \<and> l = 0 then [1, 2] else if s = 2 \<and> l = 1 then [3, 4] else []),
      has_liberties = (\<lambda>s p. (s = 0 \<and> p = 0) \<or> (s = 2 \<and> p = 1))\<rparr>"

definition fork_rank :: "nat \<Rightarrow> nat" where
  "fork_rank s = (if s = 0 then 1 else 0)"

text \<open>
  The trees of \<open>MCTS_search\<close> on \<open>fork\<close> at state 0 after one, two and three turns of the
  loop, when every draw of the random source is 0.
\<close>

definition fork_tree1 :: "(nat, nat) heap" where
  "fork_tree1 =
     [\<lparr>visits = 2, reward = - 1, state = 0, children = [1], children_actions = [1], parent = None\<rparr>,
      \<lparr>visits = 2, reward = 1, state = 1, children = [], children_actions = [], parent = Some 0\<rparr>]"

definition fork_tree2 :: "(nat, nat) heap" where
  "fork_tree2 =
     [\<lparr>visits = 3, reward = - 2, state = 0, children = [1, 2], children_actions = [1, 2], parent = None\<rparr>,
      \<lparr>visits = 2, reward = 1, state = 1, children = [], children_actions = [], parent = Some 0\<rparr>,
      \<lparr>visits = 2, reward = 1, state = 2, children = [], children_actions = [], parent = Some 0\<rparr>]"

definition fork_tree3 :: "(nat, nat) heap" where
  "fork_tree3 =
     [\<lparr>visits = 4, reward = - 3, state = 0, children = [1, 2], children_actions = [1, 2], parent = None\<rparr>,
      \<lparr>visits = 3, reward = 2, state = 1, children = [], children_actions = [], parent = Some 0\<rparr>,
      \<lparr>visits = 2, reward = 1, state = 2, children = [], children_actions = [], parent = Some 0\<rparr>]"

text \<open>
  \<open>chain\<close>: a heap of four nodes, the root 0, its children 1 and 3, and the child 2 of
  node 1.
\<close>

definition chain :: "(nat, nat) heap" where
  "chain =
     [\<lparr>visits = 3, reward = 0, state = 0, children = [1, 3], children_actions = [1, 3],
        parent = None\<rparr>,
      \<lparr>visits = 2, reward = 1, state = 1, children = [2], children_actions = [2],
        parent = Some 0\<rparr>,
      \<lparr>visits = 1, reward = 0, state = 2, children = [], children_actions = [],
        parent = Some 1\<rparr>,
      \<lparr>visits = 1, reward = 0, state = 3, children = [], children_actions = [],
        parent = Some 0\<rparr>]"

section \<open>The equations of the alpha-beta functions\<close>

lemma min_value_unfold:
  "min_value g s p d alpha beta =
     (if terminal_test g s then Some (Inr (utility g s p))
      else if d = 0 then Some (as_number (score g s p))
      else min_loop g s (actions g s) p d PInf alpha beta)"
  unfolding min_value_def min_loop_def by (subst ab_run.simps) simp

lemma max_value_unfold:
  "max_value g s p d alpha beta =
     (if terminal_test g s then Some (Inr (utility g s p))
      else if d = 0 then Some (as_number (score g s p))
      else max_loop g s (actions g s) p d MInf alpha beta)"
  unfolding max_value_def max_loop_def by (subst ab_run.simps) simp

lemma min_loop_Nil: "min_loop g s [] p d v alpha beta = Some (Inr v)"
  unfolding min_loop_def by (subst ab_run.simps) simp

lemma max_loop_Nil: "max_loop g s [] p d v alpha beta = Some (Inr v)"
  unfolding max_loop_def by (subst ab_run.simps) simp

lemma min_loop_Cons:
  "min_loop g s (a # rest) p d v alpha beta =
     (case max_value g (result g s a) p (d - 1) alpha beta of
        None \<Rightarrow> None
      | Some (Inl e) \<Rightarrow> Some (Inl e)
      | Some (Inr w) \<Rightarrow>
          if min v w \<le> alpha then Some (Inr (min v w))
          else min_loop g s rest p d (min v w) alpha (min beta (min v w)))"
  unfolding min_loop_def max_value_def
  by (subst ab_run.simps) (simp add: Let_def split: option.splits sum.splits)

lemma max_loop_Cons:
  "max_loop g s (a # rest) p d v alpha beta =
     (case min_value g (result g s a) p (d - 1) alpha beta of
        None \<Rightarrow> None
      | Some (Inl e) \<Rightarrow> Some (Inl e)
      | Some (Inr w) \<Rightarrow>
          if max v w \<ge> beta then Some (Inr (max v w))
          else max_loop g s rest p d (max v w) (max alpha (max v w)) beta)"
  unfolding max_loop_def min_value_def
  by (subst ab_run.simps) (simp add: Let_def split: option.splits sum.splits)

lemmas ab_eval = min_value_unfold max_value_unfold min_loop_Nil max_loop_Nil min_loop_Cons max_loop_Cons

lemma root_loop_trace:
  "root_loop g p s depth as (alpha, alpha, mv) = Some (Inr (alpha', bs', mv')) \<Longrightarrow>
   \<exists>vs. length vs = length as \<and>
     (\<forall>k<length as. min_value g (result g s (as ! k)) p (depth - 1) (fold max (take k vs) alpha) PInf
         = Some (Inr (vs ! k))) \<and>
     alpha' = fold max vs alpha \<and> bs' = alpha' \<and>
     (if \<exists>v\<in>set vs. alpha \<le> v
      then \<exists>pre a post vpre v vpost. as = pre @ a # post \<and> vs = vpre @ v # vpost \<and>
             length vpre = length pre \<and> mv' = Some a \<and> alpha \<le> v \<and>
             (\<forall>x\<in>set vpre. x \<le> v) \<and> (\<forall>x\<in>set vpost. x < v) \<and> alpha' = v
      else mv' = mv \<and> alpha' = alpha)"
proof (induction as arbitrary: alpha mv)
  case Nil
  then show ?case by auto
next
  case (Cons a rest)
  from Cons.prems obtain v where
    v: "min_value g (result g s a) p (depth - 1) alpha PInf = Some (Inr v)"
    and run: "root_loop g p s depth rest
       (max alpha v, if v \<ge> alpha then (v, Some a) else (alpha, mv)) = Some (Inr (alpha', bs', mv'))"
    by (auto split: option.splits sum.splits)
  define mv1 where "mv1 = (if v \<ge> alpha then Some a else mv)"
  have st: "(max alpha v, if v \<ge> alpha then (v, Some a) else (alpha, mv)) = (max alpha v, max alpha v, mv1)"
    by (auto simp: mv1_def max_def)
  from run st have run': "root_loop g p s depth rest (max alpha v, max alpha v, mv1) = Some (Inr (alpha', bs', mv'))"
    by simp
  from Cons.IH [OF run'] obtain vs where
    len: "length vs = length rest"
    and vals: "\<forall>k<length rest. min_value g (result g s (rest ! k)) p (depth - 1)
         (fold max (take k vs) (max alpha v)) PInf = Some (Inr (vs ! k))"
    and a': "alpha' = fold max vs (max alpha v)" and bs: "bs' = alpha'"
    and win: "(if \<exists>w\<in>set vs. max alpha v \<le> w
      then \<exists>pre a post vpre w vpost. rest = pre @ a # post \<and> vs = vpre @ w # vpost \<and>
             length vpre = length pre \<and> mv' = Some a \<and> max alpha v \<le> w \<and>
             (\<forall>x\<in>set vpre. x \<le> w) \<and> (\<forall>x\<in>set vpost. x < w) \<and> alpha' = w
      else mv' = mv1 \<and> alpha' = max alpha v)"
    by blast
  have 1: "length (v # vs) = length (a # rest)" using len by simp
  have 2: "\<forall>k<length (a # rest). min_value g (result g s ((a # rest) ! k)) p (depth - 1)
       (fold max (take k (v # vs)) alpha) PInf = Some (Inr ((v # vs) ! k))"
  proof (intro allI impI)
    fix k assume "k < length (a # rest)"
    then show "min_value g (result g s ((a # rest) ! k)) p (depth - 1)
       (fold max (take k (v # vs)) alpha) PInf = Some (Inr ((v # vs) ! k))"
      using v vals by (cases k) (simp_all add: max.commute)
  qed
  have 3: "alpha' = fold max (v # vs) alpha" using a' by (simp add: max.commute)
  have 4: "(if \<exists>w\<in>set (v # vs). alpha \<le> w
      then \<exists>pre b post vpre w vpost. a # rest = pre @ b # post \<and> v # vs = vpre @ w # vpost \<and>
             length vpre = length pre \<and> mv' = Some b \<and> alpha \<le> w \<and>
             (\<forall>x\<in>set vpre. x \<le> w) \<and> (\<forall>x\<in>set vpost. x < w) \<and> alpha' = w
      else mv' = mv \<and> alpha' = alpha)"
  proof (cases "\<exists>w\<in>set vs. max alpha v \<le> w")
    case True
    with win obtain pre b post vpre w vpost where
      d: "rest = pre @ b # post" "vs = vpre @ w # vpost" "length vpre = length pre"
         "mv' = Some b" "max alpha v \<le> w" "\<forall>x\<in>set vpre. x \<le> w" "\<forall>x\<in>set vpost. x < w" "alpha' = w"
      by auto
    have "a # rest = (a # pre) @ b # post" "v # vs = (v # vpre) @ w # vpost"
      "length (v # vpre) = length (a # pre)" "alpha \<le> w" "\<forall>x\<in>set (v # vpre). x \<le> w"
      using d by auto
    with d have ex: "\<exists>pre b post vpre w vpost. a # rest = pre @ b # post \<and> v # vs = vpre @ w # vpost \<and>
             length vpre = length pre \<and> mv' = Some b \<and> alpha \<le> w \<and>
             (\<forall>x\<in>set vpre. x \<le> w) \<and> (\<forall>x\<in>set vpost. x < w) \<and> alpha' = w"
      by blast
    have "\<exists>w\<in>set (v # vs). alpha \<le> w" using d by auto
    with ex show ?thesis by simp
  next
    case False
    with win have m: "mv' = mv1" "alpha' = max alpha v" by auto
    from False have small: "\<forall>x\<in>set vs. x < max alpha v"
      using linorder_not_le by blast
    show ?thesis
    proof (cases "alpha \<le> v")
      case True
      then have "a # rest = [] @ a # rest" "v # vs = [] @ v # vs" "length ([]::ext list) = length ([]::'b list)"
        "mv' = Some a" "\<forall>x\<in>set vs. x < v" "alpha' = v"
        using m small by (auto simp: mv1_def max_def)
      with True have ex: "\<exists>pre b post vpre w vpost. a # rest = pre @ b # post \<and> v # vs = vpre @ w # vpost \<and>
             length vpre = length pre \<and> mv' = Some b \<and> alpha \<le> w \<and>
             (\<forall>x\<in>set vpre. x \<le> w) \<and> (\<forall>x\<in>set vpost. x < w) \<and> alpha' = w"
        by (metis empty_iff list.size(3) set_empty2)
      from True have "\<exists>w\<in>set (v # vs). alpha \<le> w" by simp
      with ex show ?thesis by simp
    next
      case False
      then have "\<not> (\<exists>w\<in>set (v # vs). alpha \<le> w)" using small by (auto simp: max_def)
      moreover have "mv' = mv" "alpha' = alpha" using m False by (auto simp: mv1_def max_def)
      ultimately show ?thesis by simp
    qed
  qed
  from 1 2 3 4 bs show ?case by blast
qed

lemma score_both: "p = 0 \<or> p = 1 \<Longrightarrow> \<exists>n. score g s p = Inr n"
  by (auto simp: score_def tuple_get_def)

lemma ab_total:
  "p = 0 \<or> p = 1 \<Longrightarrow> d = int n \<Longrightarrow>
     (\<exists>v. min_value g s p d alpha beta = Some (Inr v)) \<and>
     (\<exists>v. max_value g s p d alpha beta = Some (Inr v))"
proof (induction n arbitrary: d s alpha beta)
  case 0
  then show ?case
    using score_both [of p g s]
    by (auto simp: min_value_unfold max_value_unfold as_number_def)
next
  case (Suc n)
  have d1: "d - 1 = int n" and dn: "d \<noteq> 0" using Suc.prems by simp_all
  have mn: "\<exists>w. min_loop g s as p d v alpha beta = Some (Inr w)" for as v alpha beta
  proof (induction as arbitrary: v alpha beta)
    case Nil
    then show ?case by (simp add: min_loop_Nil)
  next
    case (Cons a rest)
    from Suc.IH [OF Suc.prems(1) d1, of "result g s a" alpha beta]
    obtain w where "max_value g (result g s a) p (d - 1) alpha beta = Some (Inr w)" by blast
    then show ?case using Cons.IH by (simp add: min_loop_Cons)
  qed
  have mx: "\<exists>w. max_loop g s as p d v alpha beta = Some (Inr w)" for as v alpha beta
  proof (induction as arbitrary: v alpha beta)
    case Nil
    then show ?case by (simp add: max_loop_Nil)
  next
    case (Cons a rest)
    from Suc.IH [OF Suc.prems(1) d1, of "result g s a" alpha beta]
    obtain w where "min_value g (result g s a) p (d - 1) alpha beta = Some (Inr w)" by blast
    then show ?case using Cons.IH by (simp add: max_loop_Cons)
  qed
  show ?case using mn mx dn by (simp add: min_value_unfold max_value_unfold)
qed

lemma root_loop_total:
  "p = 0 \<or> p = 1 \<Longrightarrow> 1 \<le> depth \<Longrightarrow> \<exists>r. root_loop g p s depth as vars = Some (Inr r)"
proof (induction as arbitrary: vars)
  case Nil
  then show ?case by (cases vars) simp
next
  case (Cons a rest)
  obtain alpha bs mv where vars: "vars = (alpha, bs, mv)" by (metis prod_cases3)
  from Cons.prems have "depth - 1 = int (nat (depth - 1))" by simp
  from ab_total [OF Cons.prems(1) this, of g "result g s a" alpha PInf]
  obtain v where "min_value g (result g s a) p (depth - 1) alpha PInf = Some (Inr v)" by blast
  then show ?case using Cons.IH [OF Cons.prems] vars by simp
qed

section \<open>Backpropagation along the path to the root\<close>

lemma backprop_None: "backprop h None rw = Some h"
  by (subst backprop.simps) simp

lemma backprop_Some:
  "i < length h \<Longrightarrow>
   backprop h (Some i) rw =
     backprop (h[i := (h ! i)\<lparr>reward := reward (h ! i) + rw, visits := visits (h ! i) + 1\<rparr>])
       (parent (h ! i)) (- rw)"
  by (subst backprop.simps) (simp add: Let_def)

lemma ancestor_le:
  "parents_below h \<Longrightarrow> i < length h \<Longrightarrow> ancestor h i k = Some j \<Longrightarrow> j \<le> i \<and> (0 < k \<longrightarrow> j < i)"
proof (induction k arbitrary: i)
  case 0
  then show ?case by simp
next
  case (Suc k)
  from Suc.prems(3) obtain p where p: "parent (h ! i) = Some p" "ancestor h p k = Some j"
    by (auto split: option.splits)
  with Suc.prems have pi: "p < i" by (auto simp: parents_below_def)
  with Suc.prems have "p < length h" by simp
  from Suc.IH [OF Suc.prems(1) this p(2)] pi show ?case by simp
qed

lemma ancestor_cong:
  "\<forall>j. parent (h' ! j) = parent (h ! j) \<Longrightarrow> ancestor h' i k = ancestor h i k"
  by (induction k arbitrary: i) (auto split: option.splits)

lemma backprop_path:
  "parents_below h \<Longrightarrow> leaf < length h \<Longrightarrow>
   \<exists>h'. backprop h (Some leaf) r = Some h' \<and> length h' = length h \<and>
     (\<forall>j<length h.
        (\<forall>k. ancestor h leaf k = Some j \<longrightarrow>
           h' ! j = (h ! j)\<lparr>reward := reward (h ! j) + r * (- 1) ^ k, visits := visits (h ! j) + 1\<rparr>) \<and>
        ((\<forall>k. ancestor h leaf k \<noteq> Some j) \<longrightarrow> h' ! j = h ! j)) \<and>
     (\<exists>k top. ancestor h leaf k = Some top \<and> parent (h ! top) = None)"
proof (induction leaf arbitrary: h r rule: less_induct)
  case (less i)
  define h2 where "h2 = h[i := (h ! i)\<lparr>reward := reward (h ! i) + r, visits := visits (h ! i) + 1\<rparr>]"
  have step: "backprop h (Some i) r = backprop h2 (parent (h ! i)) (- r)"
    using less.prems(2) by (simp add: backprop_Some h2_def)
  have len2: "length h2 = length h" by (simp add: h2_def)
  have par2: "\<forall>j. parent (h2 ! j) = parent (h ! j)"
    using less.prems(2) by (auto simp: h2_def nth_list_update)
  have h2i: "h2 ! i = (h ! i)\<lparr>reward := reward (h ! i) + r, visits := visits (h ! i) + 1\<rparr>"
    using less.prems(2) by (simp add: h2_def)
  have h2o: "j \<noteq> i \<Longrightarrow> h2 ! j = h ! j" for j by (simp add: h2_def)
  show ?case
  proof (cases "parent (h ! i)")
    case None
    have anc: "ancestor h i k = Some j \<longleftrightarrow> k = 0 \<and> j = i" for k j
      using None by (cases k) auto
    have "backprop h (Some i) r = Some h2" using step None by (simp add: backprop_None)
    moreover have "ancestor h i 0 = Some i \<and> parent (h ! i) = None" using None by simp
    ultimately show ?thesis using len2 h2i h2o less.prems(2)
      by (auto simp: anc)
  next
    case (Some p)
    with less.prems have pi: "p < i" by (auto simp: parents_below_def)
    then have pl: "p < length h2" using less.prems(2) len2 by simp
    have pb2: "parents_below h2" using less.prems(1) par2 len2 by (simp add: parents_below_def)
    from less.IH [OF pi pb2 pl, of "- r"] obtain h' where
      run: "backprop h2 (Some p) (- r) = Some h'" and len: "length h' = length h2"
      and on: "\<And>j k. j < length h2 \<Longrightarrow> ancestor h2 p k = Some j \<Longrightarrow>
           h' ! j = (h2 ! j)\<lparr>reward := reward (h2 ! j) + (- r) * (- 1) ^ k, visits := visits (h2 ! j) + 1\<rparr>"
      and off: "\<And>j. j < length h2 \<Longrightarrow> \<forall>k. ancestor h2 p k \<noteq> Some j \<Longrightarrow> h' ! j = h2 ! j"
      and top: "\<exists>k top. ancestor h2 p k = Some top \<and> parent (h2 ! top) = None"
      by blast
    have anc2: "ancestor h2 p k = ancestor h p k" for k
      using par2 by (rule ancestor_cong)
    have pl': "p < length h" using pl len2 by simp
    have below: "ancestor h p k = Some j \<Longrightarrow> j \<le> p" for k j
      using ancestor_le [OF less.prems(1) pl'] by blast
    have anc_i: "ancestor h i k = Some j \<longleftrightarrow> (k = 0 \<and> j = i) \<or> (\<exists>k'. k = Suc k' \<and> ancestor h p k' = Some j)" for k j
      using Some by (cases k) auto
    have 1: "backprop h (Some i) r = Some h'" using step Some run by simp
    have 2: "length h' = length h" using len len2 by simp
    have 3: "h' ! j = (h ! j)\<lparr>reward := reward (h ! j) + r * (- 1) ^ k, visits := visits (h ! j) + 1\<rparr>"
      if j: "j < length h" and a: "ancestor h i k = Some j" for j k
    proof (cases k)
      case 0
      with a have ji: "j = i" by simp
      have "\<forall>k. ancestor h2 p k \<noteq> Some i" using below pi by (fastforce simp: anc2)
      from off [OF _ this] less.prems(2) len2 have "h' ! i = h2 ! i" by simp
      with ji 0 h2i show ?thesis by simp
    next
      case (Suc k')
      with a Some have a': "ancestor h p k' = Some j" by simp
      with below pi have "j \<noteq> i" by fastforce
      from on [of j k'] j len2 a' have "h' ! j = (h2 ! j)\<lparr>reward := reward (h2 ! j) + (- r) * (- 1) ^ k', visits := visits (h2 ! j) + 1\<rparr>"
        by (simp add: anc2)
      with h2o [OF \<open>j \<noteq> i\<close>] Suc show ?thesis by simp
    qed
    have 4: "h' ! j = h ! j" if j: "j < length h" and a: "\<forall>k. ancestor h i k \<noteq> Some j" for j
    proof -
      from a [rule_format, of 0] have "j \<noteq> i" by auto
      have "\<forall>k. ancestor h2 p k \<noteq> Some j"
      proof
        fix k
        from a [rule_format, of "Suc k"] Some show "ancestor h2 p k \<noteq> Some j" by (simp add: anc2)
      qed
      from off [OF _ this] j len2 h2o [OF \<open>j \<noteq> i\<close>] show ?thesis by simp
    qed
    from top obtain k top where "ancestor h p k = Some top" "parent (h ! top) = None"
      using par2 by (auto simp: anc2)
    with Some have 5: "ancestor h i (Suc k) = Some top \<and> parent (h ! top) = None" by simp
    from 1 2 3 4 5 show ?thesis by blast
  qed
qed

text \<open>
  C5. After \<open>backprop(leaf, r)\<close>, in a heap where every node is allocated after its parent,
  the node \<open>k\<close> steps up from the leaf has its visit count incremented by 1 and its reward
  by \<open>r * (-1) ^ k\<close> and is otherwise as before, a node that is not on the path from the
  leaf up is unchanged, and the walk returns: the path ends at a node without parent.
\<close>

theorem backprop_updates_path:
  "parents_below h \<Longrightarrow> leaf < length h \<Longrightarrow>
   \<exists>h'. backprop h (Some leaf) r = Some h' \<and> length h' = length h \<and>
     (\<forall>j<length h.
        (\<forall>k. ancestor h leaf k = Some j \<longrightarrow>
           h' ! j = (h ! j)\<lparr>reward := reward (h ! j) + r * (- 1) ^ k, visits := visits (h ! j) + 1\<rparr>) \<and>
        ((\<forall>k. ancestor h leaf k \<noteq> Some j) \<longrightarrow> h' ! j = h ! j)) \<and>
     (\<exists>k top. ancestor h leaf k = Some top \<and> parent (h ! top) = None)"
  by (rule backprop_path)

theorem backprop_updates_path_witness:
  "parents_below chain \<and> 2 < length chain \<and>
   (\<exists>h'. backprop chain (Some 2) 1 = Some h' \<and> length h' = 4 \<and>
      visits (h' ! 2) = 2 \<and> reward (h' ! 2) = 1 \<and>
      visits (h' ! 1) = 3 \<and> reward (h' ! 1) = 0 \<and>
      visits (h' ! 0) = 4 \<and> reward (h' ! 0) = 1 \<and>
      h' ! 3 = chain ! 3)"
proof -
  have pb: "parents_below chain"
    by (auto simp: parents_below_def chain_def nth_Cons split: nat.splits)
  have len: "(2::nat) < length chain" by (simp add: chain_def)
  from backprop_updates_path [OF pb len, of 1] obtain h' where
    run: "backprop chain (Some 2) 1 = Some h'" and l: "length h' = length chain"
    and on: "\<And>j k. j < length chain \<Longrightarrow> ancestor chain 2 k = Some j \<Longrightarrow>
       h' ! j = (chain ! j)\<lparr>reward := reward (chain ! j) + 1 * (- 1) ^ k, visits := visits (chain ! j) + 1\<rparr>"
    and off: "\<And>j. j < length chain \<Longrightarrow> \<forall>k. ancestor chain 2 k \<noteq> Some j \<Longrightarrow> h' ! j = chain ! j"
    by blast
  have a0: "ancestor chain 2 0 = Some 2" by simp
  have a1: "ancestor chain 2 (Suc 0) = Some 1" by (simp add: chain_def)
  have a2: "ancestor chain 2 (Suc (Suc 0)) = Some 0" by (simp add: chain_def)
  have n3: "\<forall>k. ancestor chain 2 k \<noteq> Some 3"
    using ancestor_le [OF pb len] by fastforce
  have "h' ! 2 = (chain ! 2)\<lparr>reward := reward (chain ! 2) + 1 * (- 1) ^ 0, visits := visits (chain ! 2) + 1\<rparr>"
    by (rule on [OF len a0])
  moreover have "h' ! 1 = (chain ! 1)\<lparr>reward := reward (chain ! 1) + 1 * (- 1) ^ Suc 0, visits := visits (chain ! 1) + 1\<rparr>"
    by (rule on [OF _ a1]) (simp add: chain_def)
  moreover have "h' ! 0 = (chain ! 0)\<lparr>reward := reward (chain ! 0) + 1 * (- 1) ^ Suc (Suc 0), visits := visits (chain ! 0) + 1\<rparr>"
    by (rule on [OF _ a2]) (simp add: chain_def)
  moreover have "h' ! 3 = chain ! 3"
    by (rule off [OF _ n3]) (simp add: chain_def)
  ultimately show ?thesis using pb len run l
    by (simp add: chain_def)
qed

section \<open>The invariant of the search tree\<close>

lemma tree_ok_init: "tree_ok g [UTCNode_init s None]"
  by (simp add: tree_ok_def node_ok_def UTCNode_init_def)

lemma tree_ok_parents_below: "tree_ok g h \<Longrightarrow> parents_below h"
  unfolding tree_ok_def node_ok_def parents_below_def by blast

lemma tree_okD:
  assumes "tree_ok g h" "i < length h"
  shows "1 \<le> visits (h ! i)"
    and "length (children (h ! i)) = length (children_actions (h ! i))"
    and "distinct (children_actions (h ! i))"
    and "set (children_actions (h ! i)) \<subseteq> set (actions g (state (h ! i)))"
    and "distinct (children (h ! i))"
    and "\<And>c. c \<in> set (children (h ! i)) \<Longrightarrow> i < c \<and> c < length h \<and> parent (h ! c) = Some i"
    and "\<And>p. parent (h ! i) = Some p \<Longrightarrow> p < i"
  using assms unfolding tree_ok_def node_ok_def by blast+

lemma add_child_eq:
  "i < length h \<Longrightarrow>
   add_child h i s a =
     h[i := (h ! i)\<lparr>children := children (h ! i) @ [length h],
                    children_actions := children_actions (h ! i) @ [a]\<rparr>] @ [UTCNode_init s (Some i)]"
  by (simp add: add_child_def Let_def nth_append list_update_append)

lemma add_child_length: "length (add_child h i s a) = Suc (length h)"
  by (simp add: add_child_def Let_def)

lemma add_child_nth:
  "i < length h \<Longrightarrow> j \<le> length h \<Longrightarrow>
   add_child h i s a ! j =
     (if j = length h then UTCNode_init s (Some i)
      else if j = i then (h ! i)\<lparr>children := children (h ! i) @ [length h],
                    children_actions := children_actions (h ! i) @ [a]\<rparr>
      else h ! j)"
  by (auto simp: add_child_eq nth_append nth_list_update)

lemma add_child_fields:
  assumes "i < length h" "j \<le> length h"
  shows "visits (add_child h i s a ! j) = (if j = length h then 1 else visits (h ! j))"
    and "state (add_child h i s a ! j) = (if j = length h then s else state (h ! j))"
    and "parent (add_child h i s a ! j) = (if j = length h then Some i else parent (h ! j))"
    and "children (add_child h i s a ! j) =
           (if j = length h then [] else if j = i then children (h ! i) @ [length h]
            else children (h ! j))"
    and "children_actions (add_child h i s a ! j) =
           (if j = length h then [] else if j = i then children_actions (h ! i) @ [a]
            else children_actions (h ! j))"
  using assms by (simp_all add: add_child_nth UTCNode_init_def)

lemma tree_ok_add_child:
  assumes ok: "tree_ok g h" and i: "i < length h"
    and a: "a \<in> set (actions g (state (h ! i)))" "a \<notin> set (children_actions (h ! i))"
  shows "tree_ok g (add_child h i s a)"
proof -
  let ?h = "add_child h i s a"
  have noi: "node_ok g h j" if "j < length h" for j using ok that by (simp add: tree_ok_def)
  have kids: "c < length h \<and> j < c \<and> parent (h ! c) = Some j"
    if "j < length h" "c \<in> set (children (h ! j))" for j c
    using noi [OF that(1)] that(2) by (simp add: node_ok_def)
  have "node_ok g ?h j" if j: "j < Suc (length h)" for j
  proof (cases "j = length h")
    case True
    then show ?thesis using i by (simp add: node_ok_def add_child_fields)
  next
    case False
    with j have jl: "j < length h" by simp
    note n = noi [OF jl, unfolded node_ok_def]
    have f: "visits (?h ! j) = visits (h ! j)" "state (?h ! j) = state (h ! j)"
      "parent (?h ! j) = parent (h ! j)"
      using i jl by (simp_all add: add_child_fields)
    have ch: "\<forall>c\<in>set (children (?h ! j)). j < c \<and> c < length ?h \<and> parent (?h ! c) = Some j"
    proof
      fix c assume c: "c \<in> set (children (?h ! j))"
      show "j < c \<and> c < length ?h \<and> parent (?h ! c) = Some j"
      proof (cases "c = length h")
        case True
        with c have "j = i" using i jl kids [OF jl, of c]
          by (auto simp: add_child_fields split: if_splits)
        with True jl i show ?thesis by (simp add: add_child_fields add_child_length)
      next
        case False
        with c have "c \<in> set (children (h ! j))" using i jl
          by (auto simp: add_child_fields split: if_splits)
        from kids [OF jl this] i show ?thesis
          by (simp add: add_child_fields add_child_length)
      qed
    qed
    have fresh: "length h \<notin> set (children (h ! j))" using kids [OF jl] by auto
    have rest: "length (children (?h ! j)) = length (children_actions (?h ! j))"
      "distinct (children_actions (?h ! j))"
      "set (children_actions (?h ! j)) \<subseteq> set (actions g (state (?h ! j)))"
      "distinct (children (?h ! j))"
      using n i jl a fresh by (auto simp: add_child_fields)
    show ?thesis
      unfolding node_ok_def using f rest ch n by simp
  qed
  then show ?thesis by (simp add: tree_ok_def add_child_length add_child_def Let_def)
qed

lemma random_choice_Inr:
  "random_choice r xs = Inr (x, r') \<Longrightarrow> x \<in> set xs \<and> r' = (\<lambda>n. r (Suc n))"
  by (auto simp: random_choice_def split: if_splits)

lemma random_choice_total: "xs \<noteq> [] \<Longrightarrow> \<exists>x r'. random_choice r xs = Inr (x, r')"
  by (simp add: random_choice_def)

lemma expand_Inr:
  assumes i: "i < length h" and e: "expand g h i r = Inr (h', c, r')"
  shows "\<exists>a. a \<in> set (actions g (state (h ! i))) \<and> a \<notin> set (children_actions (h ! i)) \<and>
            h' = add_child h i (result g (state (h ! i)) a) a \<and> c = length h"
proof -
  from e obtain a r1 where
    ch: "random_choice r (filter (\<lambda>a. a \<notin> set (children_actions (h ! i))) (actions g (state (h ! i)))) = Inr (a, r1)"
    by (auto simp: expand_def split: sum.splits)
  from random_choice_Inr [OF ch] have a: "a \<in> set (actions g (state (h ! i)))" "a \<notin> set (children_actions (h ! i))"
    by auto
  have "list_last (children (add_child h i (result g (state (h ! i)) a) a ! i)) = Inr (length h)"
    using i by (simp add: add_child_nth list_last_def)
  with e ch have "h' = add_child h i (result g (state (h ! i)) a) a" "c = length h"
    by (auto simp: expand_def Let_def)
  with a show ?thesis by blast
qed

lemma expand_total:
  assumes ok: "tree_ok g h" and i: "i < length h" and ne: "\<not> is_expanded g h i"
    and d: "distinct (actions g (state (h ! i)))"
  shows "\<exists>h' c r'. expand g h i r = Inr (h', c, r')"
proof -
  let ?ca = "children_actions (h ! i)" and ?as = "actions g (state (h ! i))"
  from ok i have n: "distinct ?ca" "set ?ca \<subseteq> set ?as" by (rule tree_okD)+
  from ne have "length ?ca \<noteq> length ?as" by (simp add: is_expanded_def split: if_splits)
  have "set ?ca \<noteq> set ?as"
  proof
    assume "set ?ca = set ?as"
    then have "card (set ?ca) = card (set ?as)" by simp
    with n(1) d have "length ?ca = length ?as" by (simp add: distinct_card)
    with \<open>length ?ca \<noteq> length ?as\<close> show False by simp
  qed
  with n(2) obtain a where "a \<in> set ?as" "a \<notin> set ?ca" by blast
  then have "filter (\<lambda>a. a \<notin> set ?ca) ?as \<noteq> []" by (auto simp: filter_empty_conv)
  from random_choice_total [OF this, of r] obtain a r1 where
    ch: "random_choice r (filter (\<lambda>a. a \<notin> set ?ca) ?as) = Inr (a, r1)" by blast
  have "list_last (children (add_child h i (result g (state (h ! i)) a) a ! i)) = Inr (length h)"
    using i by (simp add: add_child_nth list_last_def)
  with ch show ?thesis by (simp add: expand_def Let_def)
qed

lemma max_key_in:
  "max_key f b kb xs = Inr y \<Longrightarrow> y = b \<or> y \<in> set xs"
  by (induction xs arbitrary: b kb) (auto split: sum.splits if_splits)

lemma max_key_total:
  "\<forall>x\<in>set xs. \<exists>k. f x = Inr k \<Longrightarrow> \<exists>y. max_key f b kb xs = Inr y"
  by (induction xs arbitrary: b kb) (auto split: sum.splits)

lemma py_max_in: "py_max f xs = Inr y \<Longrightarrow> y \<in> set xs"
  by (auto simp: py_max_def split: list.splits sum.splits dest: max_key_in)

lemma py_max_total:
  "xs \<noteq> [] \<Longrightarrow> \<forall>x\<in>set xs. \<exists>k. f x = Inr k \<Longrightarrow> \<exists>y. py_max f xs = Inr y"
  using max_key_total [of _ f]
  by (cases xs) (auto simp: py_max_def split: sum.splits)

lemma best_child_in: "best_child h i c_factor = Inr c \<Longrightarrow> c \<in> set (children (h ! i))"
  by (auto simp: best_child_def dest: py_max_in)

lemma uct_defined:
  assumes ok: "tree_ok g h" and i: "i < length h" and c: "c \<in> set (children (h ! i))"
  shows "(\<exists>x. exploitation h c = Inr x) \<and> (\<exists>y. exploration h c = Inr y) \<and> (\<exists>k. uct h c_factor c = Inr k)"
proof -
  from tree_okD(6) [OF ok i c] have cl: "c < length h" and p: "parent (h ! c) = Some i"
    by simp_all
  from ok i have vi: "1 \<le> visits (h ! i)" by (rule tree_okD)
  from ok cl have vc: "1 \<le> visits (h ! c)" by (rule tree_okD)
  have "0 \<le> ln (real (visits (h ! i))) / real (visits (h ! c))"
    using vi vc by simp
  then have nn: "\<not> ln (real (visits (h ! i))) / real (visits (h ! c)) < 0"
    by (simp only: not_less)
  from vi vc have nz: "visits (h ! i) \<noteq> 0" "visits (h ! c) \<noteq> 0" by simp_all
  show ?thesis
    by (simp add: exploitation_def exploration_def uct_def p nn nz)
qed

lemma best_child_total:
  assumes ok: "tree_ok g h" and i: "i < length h" and ne: "children (h ! i) \<noteq> []"
  shows "\<exists>c. best_child h i c_factor = Inr c"
  unfolding best_child_def
  using py_max_total [OF ne, of "uct h c_factor"] uct_defined [OF ok i]
  by blast

lemma best_child_error:
  assumes ok: "tree_ok g h" and i: "i < length h" and e: "best_child h i c_factor = Inl e"
  shows "children (h ! i) = [] \<and> e = ValueError"
proof (cases "children (h ! i) = []")
  case True
  with e show ?thesis by (simp add: best_child_def py_max_def)
next
  case False
  from best_child_total [OF ok i False, of c_factor] e show ?thesis by simp
qed

lemma extends_refl: "extends h h"
  by (simp add: extends_def)

lemma extends_trans:
  assumes a: "extends h1 h2" and b: "extends h2 h3"
  shows "extends h1 h3"
  unfolding extends_def
proof (intro conjI allI impI)
  show "length h1 \<le> length h3" using a b by (simp add: extends_def)
next
  fix j assume j: "j < length h1"
  then have j2: "j < length h2" using a by (simp add: extends_def)
  note A = a [unfolded extends_def, THEN conjunct2, rule_format, OF j]
  note B = b [unfolded extends_def, THEN conjunct2, rule_format, OF j2]
  show "state (h3 ! j) = state (h1 ! j)" using A B by simp
  show "parent (h3 ! j) = parent (h1 ! j)" using A B by simp
  show "visits (h1 ! j) \<le> visits (h3 ! j)" using A B by simp
  show "\<exists>cs. children (h3 ! j) = children (h1 ! j) @ cs" using A B by auto
  show "\<exists>as. children_actions (h3 ! j) = children_actions (h1 ! j) @ as" using A B by auto
qed

lemma extendsD:
  assumes "extends h h'" "j < length h"
  shows "j < length h'" and "state (h' ! j) = state (h ! j)" and "parent (h' ! j) = parent (h ! j)"
    and "visits (h ! j) \<le> visits (h' ! j)"
    and "children (h ! j) \<noteq> [] \<Longrightarrow> children (h' ! j) \<noteq> []"
  using assms unfolding extends_def by auto

lemma expand_extends:
  assumes i: "i < length h" and e: "expand g h i r = Inr (h', c, r')"
  shows "extends h h'" and "c < length h'" and "children (h' ! i) \<noteq> []"
    and "length h' = Suc (length h)" and "visits (h' ! c) = 1"
proof -
  from expand_Inr [OF i e] obtain a where
    h': "h' = add_child h i (result g (state (h ! i)) a) a" and c: "c = length h" by blast
  show "extends h h'"
    unfolding extends_def h' using i by (auto simp: add_child_length add_child_fields)
  show "c < length h'" by (simp add: h' c add_child_length)
  show "children (h' ! i) \<noteq> []" using i by (simp add: h' add_child_fields)
  show "length h' = Suc (length h)" by (simp add: h' add_child_length)
  show "visits (h' ! c) = 1" using i by (simp add: h' c add_child_fields)
qed

lemma expand_ok:
  assumes ok: "tree_ok g h" and i: "i < length h" and e: "expand g h i r = Inr (h', c, r')"
  shows "tree_ok g h'"
proof -
  from expand_Inr [OF i e] obtain a where
    "a \<in> set (actions g (state (h ! i)))" "a \<notin> set (children_actions (h ! i))"
    "h' = add_child h i (result g (state (h ! i)) a) a" by blast
  with tree_ok_add_child [OF ok i] show ?thesis by simp
qed

lemma expand_error: "expand g h i r = Inl e \<Longrightarrow> e = IndexError"
  by (auto simp: expand_def random_choice_def list_last_def Let_def split: sum.splits if_splits)

lemma tree_policy_unfold:
  "tree_policy g h node r =
     (if terminal_test g (state (h ! node)) then Some (Inr (h, node, r))
      else if \<not> is_expanded g h node then Some (expand g h node r)
      else (case best_child h node (sqrt 2) of
              Inl e \<Rightarrow> Some (Inl e)
            | Inr c \<Rightarrow> tree_policy g h c r))"
  by (subst tree_policy.simps) simp

lemma tree_policy_ok:
  "tree_ok g h \<Longrightarrow> node < length h \<Longrightarrow> tree_policy g h node r = Some (Inr (h', leaf, r')) \<Longrightarrow>
     tree_ok g h' \<and> extends h h' \<and> leaf < length h' \<and>
     (\<not> terminal_test g (state (h ! node)) \<longrightarrow> children (h' ! node) \<noteq> [])"
proof (induction "length h - node" arbitrary: node rule: less_induct)
  case less
  note ok = less.prems(1) and nl = less.prems(2) and run = less.prems(3)
  show ?case
  proof (cases "terminal_test g (state (h ! node))")
    case True
    with run have "h' = h" "leaf = node" by (simp_all add: tree_policy_unfold)
    with ok nl True show ?thesis by (simp add: extends_refl)
  next
    case nt: False
    show ?thesis
    proof (cases "is_expanded g h node")
      case False
      with nt run have e: "expand g h node r = Inr (h', leaf, r')" by (simp add: tree_policy_unfold)
      from expand_ok [OF ok nl e] expand_extends [OF nl e] show ?thesis by simp
    next
      case True
      with nt run obtain c where bc: "best_child h node (sqrt 2) = Inr c"
        and rec: "tree_policy g h c r = Some (Inr (h', leaf, r'))"
        by (auto simp: tree_policy_unfold split: sum.splits)
      from best_child_in [OF bc] have cin: "c \<in> set (children (h ! node))" .
      from tree_okD(6) [OF ok nl cin] have c: "node < c" "c < length h" by simp_all
      then have "length h - c < length h - node" by simp
      from less.hyps [OF this ok c(2) rec] have
        R: "tree_ok g h'" "extends h h'" "leaf < length h'" by simp_all
      from cin have "children (h ! node) \<noteq> []" by auto
      from extendsD(5) [OF R(2) nl this] R show ?thesis by simp
    qed
  qed
qed

lemma tree_policy_error:
  "tree_ok g h \<Longrightarrow> node < length h \<Longrightarrow> tree_policy g h node r = Some (Inl e) \<Longrightarrow>
     e = IndexError \<or> e = ValueError"
proof (induction "length h - node" arbitrary: node rule: less_induct)
  case less
  note ok = less.prems(1) and nl = less.prems(2) and run = less.prems(3)
  from run have nt: "\<not> terminal_test g (state (h ! node))"
    by (auto simp: tree_policy_unfold split: if_splits)
  show ?case
  proof (cases "is_expanded g h node")
    case False
    with nt run have "expand g h node r = Inl e" by (simp add: tree_policy_unfold)
    then show ?thesis by (simp add: expand_error)
  next
    case True
    show ?thesis
    proof (cases "best_child h node (sqrt 2)")
      case (Inl e')
      with nt True run have "e' = e" by (simp add: tree_policy_unfold)
      with best_child_error [OF ok nl Inl] show ?thesis by simp
    next
      case (Inr c)
      with nt True run have rec: "tree_policy g h c r = Some (Inl e)" by (simp add: tree_policy_unfold)
      from best_child_in [OF Inr] have cin: "c \<in> set (children (h ! node))" .
      from tree_okD(6) [OF ok nl cin] have c: "node < c" "c < length h" by simp_all
      then have "length h - c < length h - node" by simp
      from less.hyps [OF this ok c(2) rec] show ?thesis .
    qed
  qed
qed

lemma tree_policy_total:
  "game_ok g rank \<Longrightarrow> tree_ok g h \<Longrightarrow> node < length h \<Longrightarrow>
     \<exists>h' leaf r'. tree_policy g h node r = Some (Inr (h', leaf, r'))"
proof (induction "length h - node" arbitrary: node rule: less_induct)
  case less
  note gm = less.prems(1) and ok = less.prems(2) and nl = less.prems(3)
  show ?case
  proof (cases "terminal_test g (state (h ! node))")
    case True
    then show ?thesis by (simp add: tree_policy_unfold)
  next
    case nt: False
    with gm have acts: "actions g (state (h ! node)) \<noteq> []" "distinct (actions g (state (h ! node)))"
      by (simp_all add: game_ok_def)
    show ?thesis
    proof (cases "is_expanded g h node")
      case False
      from expand_total [OF ok nl False acts(2), of r] nt False show ?thesis
        by (auto simp: tree_policy_unfold)
    next
      case True
      then have "length (children_actions (h ! node)) = length (actions g (state (h ! node)))"
        by (simp add: is_expanded_def split: if_splits)
      with tree_okD(2) [OF ok nl] acts(1) have ne: "children (h ! node) \<noteq> []" by auto
      from best_child_total [OF ok nl ne, of "sqrt 2"] obtain c where
        bc: "best_child h node (sqrt 2) = Inr c" by blast
      from best_child_in [OF bc] have cin: "c \<in> set (children (h ! node))" .
      from tree_okD(6) [OF ok nl cin] have c: "node < c" "c < length h" by simp_all
      then have "length h - c < length h - node" by simp
      from less.hyps [OF this gm ok c(2)] nt True bc show ?thesis
        by (simp add: tree_policy_unfold)
    qed
  qed
qed

lemma playout_unfold:
  "playout g s r =
     (if terminal_test g s then Some (Inr (s, r))
      else (case random_choice r (actions g s) of
              Inl e \<Rightarrow> Some (Inl e)
            | Inr (action, r') \<Rightarrow> playout g (result g s action) r'))"
  by (subst playout.simps) simp

lemma playout_total:
  "game_ok g rank \<Longrightarrow> \<exists>s' r'. playout g s r = Some (Inr (s', r'))"
proof (induction "rank s" arbitrary: s r rule: less_induct)
  case less
  show ?case
  proof (cases "terminal_test g s")
    case True
    then show ?thesis by (simp add: playout_unfold)
  next
    case False
    with less.prems have ne: "actions g s \<noteq> []"
      and dec: "\<And>a. a \<in> set (actions g s) \<Longrightarrow> rank (result g s a) < rank s"
      by (simp_all add: game_ok_def)
    from random_choice_total [OF ne, of r] obtain a r1 where
      ch: "random_choice r (actions g s) = Inr (a, r1)" by blast
    from random_choice_Inr [OF ch] have "a \<in> set (actions g s)" by simp
    from less.hyps [OF dec [OF this] less.prems, of r1] False ch show ?thesis
      by (simp add: playout_unfold)
  qed
qed

lemma default_policy_total:
  "game_ok g rank \<Longrightarrow> \<exists>rw r'. default_policy g s r = Some (Inr (rw, r')) \<and> (rw = 1 \<or> rw = - 1)"
proof -
  assume "game_ok g rank"
  from playout_total [OF this, of s r] obtain s' r' where "playout g s r = Some (Inr (s', r'))"
    by blast
  then show ?thesis by (simp add: default_policy_def)
qed

lemma tree_ok_same_shape:
  assumes ok: "tree_ok g h" and len: "length h' = length h"
    and same: "\<And>j. j < length h \<Longrightarrow>
       state (h' ! j) = state (h ! j) \<and> parent (h' ! j) = parent (h ! j) \<and>
       children (h' ! j) = children (h ! j) \<and>
       children_actions (h' ! j) = children_actions (h ! j) \<and> visits (h ! j) \<le> visits (h' ! j)"
  shows "tree_ok g h'"
proof -
  have "node_ok g h' i" if i: "i < length h" for i
    unfolding node_ok_def
  proof (intro conjI ballI allI impI)
    note S = same [OF i]
    show "1 \<le> visits (h' ! i)" using tree_okD(1) [OF ok i] S by simp
    show "length (children (h' ! i)) = length (children_actions (h' ! i))"
      using tree_okD(2) [OF ok i] S by simp
    show "distinct (children_actions (h' ! i))" using tree_okD(3) [OF ok i] S by simp
    show "set (children_actions (h' ! i)) \<subseteq> set (actions g (state (h' ! i)))"
      using tree_okD(4) [OF ok i] S by simp
    show "distinct (children (h' ! i))" using tree_okD(5) [OF ok i] S by simp
    fix c assume "c \<in> set (children (h' ! i))"
    then have c: "c \<in> set (children (h ! i))" using S by simp
    note K = tree_okD(6) [OF ok i c]
    show "i < c" using K by simp
    show "c < length h'" using K len by simp
    from K have "c < length h" by simp
    from same [OF this] K show "parent (h' ! c) = Some i" by simp
  next
    fix p assume "parent (h' ! i) = Some p"
    then have "parent (h ! i) = Some p" using same [OF i] by simp
    then show "p < i" by (rule tree_okD(7) [OF ok i])
  qed
  with ok len show ?thesis by (auto simp: tree_ok_def)
qed

lemma backprop_shape:
  assumes pb: "parents_below h" and l: "leaf < length h"
  shows "\<exists>h'. backprop h (Some leaf) rw = Some h' \<and> length h' = length h \<and>
     (\<forall>j<length h.
       state (h' ! j) = state (h ! j) \<and> parent (h' ! j) = parent (h ! j) \<and>
       children (h' ! j) = children (h ! j) \<and>
       children_actions (h' ! j) = children_actions (h ! j) \<and> visits (h ! j) \<le> visits (h' ! j))"
proof -
  from backprop_path [OF pb l, of rw] obtain h' where
    run: "backprop h (Some leaf) rw = Some h'" and len: "length h' = length h"
    and on: "\<And>j k. j < length h \<Longrightarrow> ancestor h leaf k = Some j \<Longrightarrow>
           h' ! j = (h ! j)\<lparr>reward := reward (h ! j) + rw * (- 1) ^ k, visits := visits (h ! j) + 1\<rparr>"
    and off: "\<And>j. j < length h \<Longrightarrow> \<forall>k. ancestor h leaf k \<noteq> Some j \<Longrightarrow> h' ! j = h ! j"
    by blast
  have "state (h' ! j) = state (h ! j) \<and> parent (h' ! j) = parent (h ! j) \<and>
       children (h' ! j) = children (h ! j) \<and>
       children_actions (h' ! j) = children_actions (h ! j) \<and> visits (h ! j) \<le> visits (h' ! j)"
    if j: "j < length h" for j
  proof (cases "\<exists>k. ancestor h leaf k = Some j")
    case True
    then obtain k where "ancestor h leaf k = Some j" ..
    from on [OF j this] show ?thesis by simp
  next
    case False
    then have "\<forall>k. ancestor h leaf k \<noteq> Some j" by simp
    from off [OF j this] show ?thesis by simp
  qed
  with run len show ?thesis by blast
qed

lemma extends_same_shape:
  assumes len: "length h' = length h"
    and same: "\<forall>j<length h.
       state (h' ! j) = state (h ! j) \<and> parent (h' ! j) = parent (h ! j) \<and>
       children (h' ! j) = children (h ! j) \<and>
       children_actions (h' ! j) = children_actions (h ! j) \<and> visits (h ! j) \<le> visits (h' ! j)"
  shows "extends h h'"
  unfolding extends_def using len same by simp

lemma mcts_iteration_ok:
  assumes ok: "tree_ok g h" and run: "mcts_iteration g h r = Some (Inr (h', r'))"
  shows "tree_ok g h'" and "extends h h'"
    and "\<not> terminal_test g (state (h ! 0)) \<Longrightarrow> children (h' ! 0) \<noteq> []"
proof -
  from ok have z: "0 < length h" by (simp add: tree_ok_def)
  from run obtain h1 leaf r1 rw where
    tp: "tree_policy g h 0 r = Some (Inr (h1, leaf, r1))"
    and bp: "backprop h1 (Some leaf) rw = Some h'"
    by (auto simp: mcts_iteration_def split: option.splits sum.splits)
  from tree_policy_ok [OF ok z tp] have
    T: "tree_ok g h1" "extends h h1" "leaf < length h1"
      "\<not> terminal_test g (state (h ! 0)) \<longrightarrow> children (h1 ! 0) \<noteq> []"
    by simp_all
  from backprop_shape [OF tree_ok_parents_below [OF T(1)] T(3), of rw] bp have
    len: "length h' = length h1"
    and same: "\<forall>j<length h1.
       state (h' ! j) = state (h1 ! j) \<and> parent (h' ! j) = parent (h1 ! j) \<and>
       children (h' ! j) = children (h1 ! j) \<and>
       children_actions (h' ! j) = children_actions (h1 ! j) \<and> visits (h1 ! j) \<le> visits (h' ! j)"
    by auto
  from tree_ok_same_shape [OF T(1) len] same show "tree_ok g h'" by blast
  from extends_trans [OF T(2) extends_same_shape [OF len same]] show "extends h h'" .
  from T(1) have "0 < length h1" by (simp add: tree_ok_def)
  with same have "children (h' ! 0) = children (h1 ! 0)" by simp
  with T(4) show "\<not> terminal_test g (state (h ! 0)) \<Longrightarrow> children (h' ! 0) \<noteq> []" by simp
qed

lemma mcts_iteration_total:
  assumes gm: "game_ok g rank" and ok: "tree_ok g h"
  shows "\<exists>h' r'. mcts_iteration g h r = Some (Inr (h', r'))"
proof -
  from ok have z: "0 < length h" by (simp add: tree_ok_def)
  from tree_policy_total [OF gm ok z, of r] obtain h1 leaf r1 where
    tp: "tree_policy g h 0 r = Some (Inr (h1, leaf, r1))" by blast
  from tree_policy_ok [OF ok z tp] have T: "tree_ok g h1" "leaf < length h1" by simp_all
  from default_policy_total [OF gm, of "state (h1 ! leaf)" r1] obtain rw r2 where
    dp: "default_policy g (state (h1 ! leaf)) r1 = Some (Inr (rw, r2))" by blast
  from backprop_shape [OF tree_ok_parents_below [OF T(1)] T(2), of rw] obtain h' where
    "backprop h1 (Some leaf) rw = Some h'" by blast
  with tp dp show ?thesis by (simp add: mcts_iteration_def)
qed

lemma mcts_loop_ok:
  "tree_ok g h \<Longrightarrow> mcts_loop g n h r = Some (Inr (h', r')) \<Longrightarrow>
     tree_ok g h' \<and> extends h h' \<and>
     (\<not> terminal_test g (state (h ! 0)) \<and> 0 < n \<longrightarrow> children (h' ! 0) \<noteq> [])"
proof (induction n arbitrary: h r)
  case 0
  then show ?case by (simp add: extends_refl)
next
  case (Suc n)
  from Suc.prems(2) obtain h1 r1 where
    it: "mcts_iteration g h r = Some (Inr (h1, r1))"
    and rest: "mcts_loop g n h1 r1 = Some (Inr (h', r'))"
    by (auto split: option.splits sum.splits)
  note I = mcts_iteration_ok [OF Suc.prems(1) it]
  from Suc.IH [OF I(1) rest] have R: "tree_ok g h'" "extends h1 h'" by simp_all
  from Suc.prems(1) have z: "0 < length h" by (simp add: tree_ok_def)
  from I(1) have z1: "0 < length h1" by (simp add: tree_ok_def)
  have "children (h' ! 0) \<noteq> []" if "\<not> terminal_test g (state (h ! 0))"
    using extendsD(5) [OF R(2) z1 I(3) [OF that]] .
  with R extends_trans [OF I(2) R(2)] show ?case by simp
qed

lemma mcts_loop_total:
  "game_ok g rank \<Longrightarrow> tree_ok g h \<Longrightarrow> \<exists>h' r'. mcts_loop g n h r = Some (Inr (h', r'))"
proof (induction n arbitrary: h r)
  case 0
  then show ?case by simp
next
  case (Suc n)
  from mcts_iteration_total [OF Suc.prems, of r] obtain h1 r1 where
    it: "mcts_iteration g h r = Some (Inr (h1, r1))" by blast
  from mcts_iteration_ok(1) [OF Suc.prems(2) it] have "tree_ok g h1" .
  from Suc.IH [OF Suc.prems(1) this, of r1] it show ?case by simp
qed

lemma index_of_found:
  "x \<in> set xs \<Longrightarrow> \<exists>k. index_of xs x = Inr k \<and> k < length xs \<and> xs ! k = x"
  by (induction xs) auto

lemma root_decision_legal:
  assumes ok: "tree_ok g h" and ne: "children (h ! 0) \<noteq> []"
  shows "\<exists>a. root_decision h c_factor = Inr a \<and> a \<in> set (actions g (state (h ! 0)))"
proof -
  from ok have z: "0 < length h" by (simp add: tree_ok_def)
  from best_child_total [OF ok z ne, of c_factor] obtain c where
    bc: "best_child h 0 c_factor = Inr c" by blast
  from index_of_found [OF best_child_in [OF bc]] obtain k where
    k: "index_of (children (h ! 0)) c = Inr k" "k < length (children (h ! 0))" by blast
  with tree_okD(2) [OF ok z] have kl: "k < length (children_actions (h ! 0))" by simp
  then have "children_actions (h ! 0) ! k \<in> set (children_actions (h ! 0))" by simp
  with tree_okD(4) [OF ok z] have "children_actions (h ! 0) ! k \<in> set (actions g (state (h ! 0)))"
    by blast
  with bc k kl show ?thesis by (simp add: root_decision_def list_get_def)
qed

section \<open>Three turns of the search on \<open>fork\<close>\<close>

lemma zero_draws_next: "(\<lambda>n. zero_draws (Suc n)) = zero_draws"
  by (simp add: zero_draws_def)

lemma fork_iteration1:
  "mcts_iteration fork [UTCNode_init 0 None] zero_draws = Some (Inr (fork_tree1, zero_draws))"
  by (simp add: mcts_iteration_def tree_policy_unfold is_expanded_def expand_def random_choice_def
      zero_draws_next add_child_def list_last_def Let_def default_policy_def playout_unfold
      backprop_Some backprop_None UTCNode_init_def fork_def fork_tree1_def zero_draws_def)

lemmas mcts_eval =
  mcts_iteration_def tree_policy_unfold is_expanded_def expand_def random_choice_def
  zero_draws_next add_child_def list_last_def Let_def default_policy_def playout_unfold
  backprop_Some backprop_None UTCNode_init_def best_child_def py_max_def uct_def
  exploitation_def exploration_def

lemma fork_iteration2:
  "mcts_iteration fork fork_tree1 zero_draws = Some (Inr (fork_tree2, zero_draws))"
  by (simp add: mcts_eval fork_def fork_tree1_def fork_tree2_def zero_draws_def)

lemma fork_iteration3:
  "mcts_iteration fork fork_tree2 zero_draws = Some (Inr (fork_tree3, zero_draws))"
  by (simp add: mcts_eval fork_def fork_tree2_def fork_tree3_def zero_draws_def)

lemma fork_loop3:
  "mcts_loop fork 3 [UTCNode_init 0 None] zero_draws = Some (Inr (fork_tree3, zero_draws))"
  by (simp add: numeral_3_eq_3 fork_iteration1 fork_iteration2 fork_iteration3)

lemma ln4_ge_1: "1 \<le> ln (4::real)"
proof -
  have "exp (1::real) \<le> 4" using exp_le by simp
  then show ?thesis by (simp add: ln_ge_iff)
qed

lemma fork_keys:
  "2 / 3 + sqrt 2 * sqrt (ln 4 / 3) < 1 / 2 + sqrt 2 * sqrt (ln (4::real) / 2)"
proof -
  let ?L = "ln (4::real)"
  have L: "1 \<le> ?L" by (rule ln4_ge_1)
  have a: "sqrt 2 * sqrt (?L / 2) = sqrt ?L"
    by (simp add: real_sqrt_mult [symmetric])
  have b: "sqrt 2 * sqrt (?L / 3) = sqrt ?L * sqrt (2 / 3)"
    by (simp add: real_sqrt_mult [symmetric] mult.commute)
  have "sqrt (2 / 3 :: real) < sqrt ((5 / 6)\<^sup>2)"
    by (subst real_sqrt_less_iff) (simp add: power2_eq_square)
  then have c: "sqrt (2 / 3 :: real) < 5 / 6" by simp
  have d: "1 \<le> sqrt ?L" using L by simp
  have "sqrt ?L * sqrt (2 / 3) + 1 / 6 \<le> sqrt ?L * sqrt (2 / 3) + sqrt ?L * (1 / 6)"
    using d by simp
  also have "\<dots> = sqrt ?L * (sqrt (2 / 3) + 1 / 6)" by (simp add: algebra_simps)
  also have "\<dots> < sqrt ?L * 1"
    using c d by (intro mult_strict_left_mono) simp_all
  finally have "sqrt ?L * sqrt (2 / 3) + 1 / 6 < sqrt ?L" by simp
  with a b show ?thesis by simp
qed

lemma fork_decision_uct: "root_decision fork_tree3 (sqrt 2) = Inr 2"
  using fork_keys
  by (simp add: root_decision_def best_child_def py_max_def uct_def exploitation_def
      exploration_def list_get_def fork_tree3_def)

lemma fork_decision_exploit: "root_decision fork_tree3 0 = Inr 1"
  by (simp add: root_decision_def best_child_def py_max_def uct_def exploitation_def
      exploration_def list_get_def fork_tree3_def)

lemma fork_search3: "MCTS_search fork 0 3 zero_draws = Some (Inr 2)"
  by (simp add: MCTS_search_def fork_loop3 fork_decision_uct)
    (simp add: fork_def UTCNode_init_def)

lemma game_ok_fork: "game_ok fork fork_rank"
  by (simp add: game_ok_def fork_def fork_rank_def)

section \<open>The first child of greatest key\<close>

lemma max_key_first:
  "max_key f b kb xs = Inr y \<Longrightarrow>
     (y = b \<and> (\<forall>x\<in>set xs. \<exists>k. f x = Inr k \<and> k \<le> kb)) \<or>
     (\<exists>pre post ky. xs = pre @ y # post \<and> f y = Inr ky \<and> kb < ky \<and>
        (\<forall>x\<in>set pre. \<exists>k. f x = Inr k \<and> k < ky) \<and>
        (\<forall>x\<in>set post. \<exists>k. f x = Inr k \<and> k \<le> ky))"
proof (induction xs arbitrary: b kb)
  case Nil
  then show ?case by simp
next
  case (Cons x xs)
  from Cons.prems obtain kx where kx: "f x = Inr kx" by (auto split: sum.splits)
  show ?case
  proof (cases "kb < kx")
    case True
    with Cons.prems kx have run: "max_key f x kx xs = Inr y" by simp
    from Cons.IH [OF run] show ?thesis
    proof
      assume A: "y = x \<and> (\<forall>z\<in>set xs. \<exists>k. f z = Inr k \<and> k \<le> kx)"
      then have "x # xs = [] @ y # xs \<and> f y = Inr kx \<and> kb < kx \<and>
        (\<forall>z\<in>set []. \<exists>k. f z = Inr k \<and> k < kx) \<and>
        (\<forall>z\<in>set xs. \<exists>k. f z = Inr k \<and> k \<le> kx)"
        using kx True by simp
      then show ?thesis by blast
    next
      assume "\<exists>pre post ky. xs = pre @ y # post \<and> f y = Inr ky \<and> kx < ky \<and>
        (\<forall>z\<in>set pre. \<exists>k. f z = Inr k \<and> k < ky) \<and>
        (\<forall>z\<in>set post. \<exists>k. f z = Inr k \<and> k \<le> ky)"
      then obtain pre post ky where
        d: "xs = pre @ y # post" "f y = Inr ky" "kx < ky"
           "\<forall>z\<in>set pre. \<exists>k. f z = Inr k \<and> k < ky"
           "\<forall>z\<in>set post. \<exists>k. f z = Inr k \<and> k \<le> ky"
        by blast
      then have "x # xs = (x # pre) @ y # post \<and> f y = Inr ky \<and> kb < ky \<and>
        (\<forall>z\<in>set (x # pre). \<exists>k. f z = Inr k \<and> k < ky) \<and>
        (\<forall>z\<in>set post. \<exists>k. f z = Inr k \<and> k \<le> ky)"
        using kx True by auto
      then show ?thesis by blast
    qed
  next
    case False
    with Cons.prems kx have run: "max_key f b kb xs = Inr y" by simp
    from Cons.IH [OF run] show ?thesis
    proof
      assume "y = b \<and> (\<forall>z\<in>set xs. \<exists>k. f z = Inr k \<and> k \<le> kb)"
      then show ?thesis using kx False by auto
    next
      assume "\<exists>pre post ky. xs = pre @ y # post \<and> f y = Inr ky \<and> kb < ky \<and>
        (\<forall>z\<in>set pre. \<exists>k. f z = Inr k \<and> k < ky) \<and>
        (\<forall>z\<in>set post. \<exists>k. f z = Inr k \<and> k \<le> ky)"
      then obtain pre post ky where
        d: "xs = pre @ y # post" "f y = Inr ky" "kb < ky"
           "\<forall>z\<in>set pre. \<exists>k. f z = Inr k \<and> k < ky"
           "\<forall>z\<in>set post. \<exists>k. f z = Inr k \<and> k \<le> ky"
        by blast
      then have "x # xs = (x # pre) @ y # post \<and> f y = Inr ky \<and> kb < ky \<and>
        (\<forall>z\<in>set (x # pre). \<exists>k. f z = Inr k \<and> k < ky) \<and>
        (\<forall>z\<in>set post. \<exists>k. f z = Inr k \<and> k \<le> ky)"
        using kx False by auto
      then show ?thesis by blast
    qed
  qed
qed

lemma py_max_first:
  assumes "py_max f xs = Inr y"
  shows "\<exists>pre post ky. xs = pre @ y # post \<and> f y = Inr ky \<and>
        (\<forall>x\<in>set pre. \<exists>k. f x = Inr k \<and> k < ky) \<and>
        (\<forall>x\<in>set post. \<exists>k. f x = Inr k \<and> k \<le> ky)"
proof -
  from assms obtain b rest kb where
    xs: "xs = b # rest" and kb: "f b = Inr kb" and run: "max_key f b kb rest = Inr y"
    by (auto simp: py_max_def split: list.splits sum.splits)
  from max_key_first [OF run] show ?thesis
  proof
    assume "y = b \<and> (\<forall>x\<in>set rest. \<exists>k. f x = Inr k \<and> k \<le> kb)"
    then have "xs = [] @ y # rest \<and> f y = Inr kb \<and>
        (\<forall>x\<in>set []. \<exists>k. f x = Inr k \<and> k < kb) \<and>
        (\<forall>x\<in>set rest. \<exists>k. f x = Inr k \<and> k \<le> kb)"
      using xs kb by simp
    then show ?thesis by blast
  next
    assume "\<exists>pre post ky. rest = pre @ y # post \<and> f y = Inr ky \<and> kb < ky \<and>
        (\<forall>x\<in>set pre. \<exists>k. f x = Inr k \<and> k < ky) \<and>
        (\<forall>x\<in>set post. \<exists>k. f x = Inr k \<and> k \<le> ky)"
    then obtain pre post ky where
      d: "rest = pre @ y # post" "f y = Inr ky" "kb < ky"
         "\<forall>x\<in>set pre. \<exists>k. f x = Inr k \<and> k < ky"
         "\<forall>x\<in>set post. \<exists>k. f x = Inr k \<and> k \<le> ky"
      by blast
    then have "xs = (b # pre) @ y # post \<and> f y = Inr ky \<and>
        (\<forall>x\<in>set (b # pre). \<exists>k. f x = Inr k \<and> k < ky) \<and>
        (\<forall>x\<in>set post. \<exists>k. f x = Inr k \<and> k \<le> ky)"
      using xs kb by auto
    then show ?thesis by blast
  qed
qed

lemma index_of_first: "y \<notin> set pre \<Longrightarrow> index_of (pre @ y # post) y = Inr (length pre)"
  by (induction pre) auto

lemma uct_value:
  assumes ok: "tree_ok g h" and i: "i < length h" and c: "c \<in> set (children (h ! i))"
  shows "uct h c_factor c =
     Inr (reward (h ! c) / real (visits (h ! c)) +
          c_factor * sqrt (ln (real (visits (h ! i))) / real (visits (h ! c))))"
proof -
  from tree_okD(6) [OF ok i c] have cl: "c < length h" and p: "parent (h ! c) = Some i"
    by simp_all
  from ok i have vi: "1 \<le> visits (h ! i)" by (rule tree_okD)
  from ok cl have vc: "1 \<le> visits (h ! c)" by (rule tree_okD)
  have "0 \<le> ln (real (visits (h ! i))) / real (visits (h ! c))"
    using vi vc by simp
  then have nn: "\<not> ln (real (visits (h ! i))) / real (visits (h ! c)) < 0"
    by (simp only: not_less)
  from vi vc have nz: "visits (h ! i) \<noteq> 0" "visits (h ! c) \<noteq> 0" by simp_all
  show ?thesis
    by (simp add: exploitation_def exploration_def uct_def p nn nz)
qed

section \<open>The exceptions of the search\<close>

lemma playout_outcome:
  assumes "playout g s r = Some y"
  shows "case y of Inl e \<Rightarrow> e = IndexError | Inr v \<Rightarrow> True"
proof (rule playout.raw_induct
    [where P = "\<lambda>g s r y. case y of Inl e \<Rightarrow> e = IndexError | Inr v \<Rightarrow> True", OF _ assms])
  fix playout' :: "('a, 'b, 'c) game \<Rightarrow> 'a \<Rightarrow> rng \<Rightarrow> (error + 'a \<times> rng) option"
    and g :: "('a, 'b, 'c) game" and s r y
  assume IH: "\<And>g s r y. playout' g s r = Some y \<Longrightarrow>
       (case y of Inl e \<Rightarrow> e = IndexError | Inr v \<Rightarrow> True)"
    and body: "(if \<not> terminal_test g s
      then case random_choice r (actions g s) of Inl e \<Rightarrow> Some (Inl e)
           | Inr (action, r') \<Rightarrow> playout' g (result g s action) r'
      else Some (Inr (s, r))) = Some y"
  show "case y of Inl e \<Rightarrow> e = IndexError | Inr v \<Rightarrow> True"
  proof (cases "terminal_test g s")
    case True
    with body show ?thesis by auto
  next
    case False
    show ?thesis
    proof (cases "random_choice r (actions g s)")
      case (Inl e)
      with False body show ?thesis
        by (auto simp: random_choice_def split: if_splits)
    next
      case (Inr p)
      with False body have "playout' g (result g s (fst p)) (snd p) = Some y"
        by (cases p) simp
      then show ?thesis by (rule IH)
    qed
  qed
qed

lemma playout_error: "playout g s r = Some (Inl e) \<Longrightarrow> e = IndexError"
  using playout_outcome [of g s r "Inl e"] by simp

lemma default_policy_error: "default_policy g s r = Some (Inl e) \<Longrightarrow> e = IndexError"
  by (auto simp: default_policy_def dest: playout_error split: option.splits sum.splits)

lemma mcts_iteration_error:
  assumes ok: "tree_ok g h" and run: "mcts_iteration g h r = Some (Inl e)"
  shows "e = IndexError \<or> e = ValueError"
proof -
  from ok have z: "0 < length h" by (simp add: tree_ok_def)
  show ?thesis
  proof (cases "tree_policy g h 0 r")
    case None
    with run show ?thesis by (simp add: mcts_iteration_def)
  next
    case (Some t)
    show ?thesis
    proof (cases t)
      case (Inl e')
      with Some run have "e' = e" by (simp add: mcts_iteration_def)
      with tree_policy_error [OF ok z] Some Inl show ?thesis by simp
    next
      case (Inr q)
      obtain h1 leaf r1 where q: "q = (h1, leaf, r1)" by (metis prod_cases3)
      with Some Inr run have "default_policy g (state (h1 ! leaf)) r1 = Some (Inl e)"
        by (auto simp: mcts_iteration_def split: option.splits sum.splits)
      then show ?thesis by (simp add: default_policy_error)
    qed
  qed
qed

lemma mcts_loop_error:
  "tree_ok g h \<Longrightarrow> mcts_loop g n h r = Some (Inl e) \<Longrightarrow> e = IndexError \<or> e = ValueError"
proof (induction n arbitrary: h r)
  case 0
  then show ?case by simp
next
  case (Suc n)
  show ?case
  proof (cases "mcts_iteration g h r")
    case None
    with Suc.prems show ?thesis by simp
  next
    case (Some t)
    show ?thesis
    proof (cases t)
      case (Inl e')
      with Some Suc.prems(2) have "e' = e" by simp
      with mcts_iteration_error [OF Suc.prems(1)] Some Inl show ?thesis by simp
    next
      case (Inr q)
      obtain h1 r1 where q: "q = (h1, r1)" by (cases q)
      with Some Inr Suc.prems(2) have rest: "mcts_loop g n h1 r1 = Some (Inl e)" by simp
      from Some Inr q have "mcts_iteration g h r = Some (Inr (h1, r1))" by simp
      from mcts_iteration_ok(1) [OF Suc.prems(1) this] have "tree_ok g h1" .
      from Suc.IH [OF this rest] show ?thesis .
    qed
  qed
qed

lemma root_decision_error:
  assumes ok: "tree_ok g h" and e: "root_decision h c_factor = Inl e"
  shows "e = ValueError"
proof (cases "children (h ! 0) = []")
  case True
  with e show ?thesis by (simp add: root_decision_def best_child_def py_max_def)
next
  case False
  from root_decision_legal [OF ok False, of c_factor] e show ?thesis by auto
qed

lemma MCTS_search_error:
  fixes g :: "('s, 'a, 'l) game"
  assumes run: "MCTS_search g s n r = Some (Inl e)"
  shows "e = IndexError \<or> e = ValueError"
proof (cases "terminal_test g s")
  case True
  with run show ?thesis
    by (auto simp: MCTS_search_def UTCNode_init_def random_choice_def split: if_splits)
next
  case False
  let ?h0 = "[UTCNode_init s None] :: ('s, 'a) heap"
  have s0: "state (?h0 ! 0) = s" by (simp add: UTCNode_init_def)
  show ?thesis
  proof (cases "mcts_loop g n ?h0 r")
    case None
    with run False s0 show ?thesis by (simp add: MCTS_search_def)
  next
    case (Some t)
    show ?thesis
    proof (cases t)
      case (Inl e')
      with Some run False s0 have "e' = e" by (simp add: MCTS_search_def)
      with Some Inl have "mcts_loop g n ?h0 r = Some (Inl e)" by simp
      from mcts_loop_error [OF tree_ok_init this] show ?thesis .
    next
      case (Inr q)
      obtain h r' where q: "q = (h, r')" by (cases q)
      with Some Inr have loop: "mcts_loop g n ?h0 r = Some (Inr (h, r'))" by simp
      with run False s0 have "root_decision h (sqrt 2) = Inl e" by (simp add: MCTS_search_def)
      from mcts_loop_ok [OF tree_ok_init loop] have "tree_ok g h" by simp
      from root_decision_error [OF this \<open>root_decision h (sqrt 2) = Inl e\<close>] show ?thesis
        by simp
    qed
  qed
qed

section \<open>Monte Carlo tree search returns a legal action\<close>

text \<open>
  C1, as the spec states it, fails when the deadline has passed at the first test of the
  loop: the root has no child, \<open>best_child\<close> takes the \<open>max\<close> of an empty list and the
  search raises ValueError. There is no fallback to a random legal action.
\<close>

theorem MCTS_search_no_iteration:
  "\<not> terminal_test fork 0 \<and> actions fork 0 = [1, 2] \<and>
   MCTS_search fork 0 0 zero_draws = Some (Inl ValueError)"
  by (simp add: MCTS_search_def root_decision_def best_child_def py_max_def UTCNode_init_def
      fork_def)

text \<open>
  C1, amended. In a game where every non-terminal state has a legal action, lists no
  action twice and every playout ends, \<open>MCTS_search\<close> on a non-terminal state returns an
  action of that state's legal-action list whenever the deadline lets at least one turn of
  the loop through, for every random source.
\<close>

theorem MCTS_search_legal:
  fixes g :: "('s, 'a, 'l) game"
  assumes gm: "game_ok g rank" and nt: "\<not> terminal_test g s" and n: "0 < n"
  shows "\<exists>a. MCTS_search g s n r = Some (Inr a) \<and> a \<in> set (actions g s)"
proof -
  let ?h0 = "[UTCNode_init s None] :: ('s, 'a) heap"
  have ok0: "tree_ok g ?h0" by (rule tree_ok_init)
  have s0: "state (?h0 ! 0) = s" by (simp add: UTCNode_init_def)
  from mcts_loop_total [OF gm ok0, of n r] obtain h r' where
    run: "mcts_loop g n ?h0 r = Some (Inr (h, r'))" by blast
  from mcts_loop_ok [OF ok0 run] nt n s0 have
    L: "tree_ok g h" "extends ?h0 h" "children (h ! 0) \<noteq> []" by simp_all
  from extendsD(2) [OF L(2), of 0] s0 have sh: "state (h ! 0) = s" by simp
  from root_decision_legal [OF L(1) L(3), of "sqrt 2"] sh obtain a where
    "root_decision h (sqrt 2) = Inr a" "a \<in> set (actions g s)" by auto
  with run nt s0 show ?thesis by (simp add: MCTS_search_def)
qed

theorem MCTS_search_legal_witness:
  "game_ok fork fork_rank \<and> \<not> terminal_test fork 0 \<and> (0::nat) < 3 \<and>
   (\<exists>a. MCTS_search fork 0 3 zero_draws = Some (Inr a) \<and> a \<in> set (actions fork 0))"
proof -
  have nt: "\<not> terminal_test fork 0" by (simp add: fork_def)
  have n: "(0::nat) < 3" by simp
  from MCTS_search_legal [OF game_ok_fork nt n, of zero_draws] game_ok_fork nt n
  show ?thesis by blast
qed

section \<open>The decision at the root\<close>

text \<open>
  C3. The claim: after the deadline \<open>MCTS_search\<close> returns the action leading to the
  root's child of greatest \<open>reward / visits\<close>, with no exploration bonus. On \<open>fork\<close>, with
  three turns of the loop and every draw 0, the root's children 1 and 2 have
  \<open>reward / visits\<close> 2/3 and 1/2, so the claim asks for action 1, which is what the last line
  gives with \<open>c_factor = 0\<close>. \<open>MCTS_search\<close> returns action 2: its last line calls
  \<open>best_child\<close> with the default \<open>c_factor = sqrt 2\<close>, which no call ever sets, and the child
  visited less often has the greater bonus.
\<close>

theorem MCTS_search_fork:
  "mcts_loop fork 3 [UTCNode_init 0 None] zero_draws = Some (Inr (fork_tree3, zero_draws)) \<and>
   children (fork_tree3 ! 0) = [1, 2] \<and> children_actions (fork_tree3 ! 0) = [1, 2] \<and>
   exploitation fork_tree3 1 = Inr (2 / 3) \<and> exploitation fork_tree3 2 = Inr (1 / 2) \<and>
   root_decision fork_tree3 0 = Inr 1 \<and>
   MCTS_search fork 0 3 zero_draws = Some (Inr 2)"
  by (simp add: fork_loop3 fork_search3 fork_decision_exploit)
    (simp add: fork_tree3_def exploitation_def)

text \<open>
  What the last line does return: the action recorded for the first child of the root of
  greatest key, the key being that of the selection,
  \<open>reward / visits + sqrt 2 * sqrt (ln (visits of the root) / visits)\<close>. Every child before
  it has a smaller key, every child after it a key that is not greater.
\<close>

lemma MCTS_search_first_greatest_key:
  fixes g :: "('s, 'a, 'l) game"
  assumes gm: "game_ok g rank" and nt: "\<not> terminal_test g s" and n: "0 < n"
  shows "\<exists>a h r' pre c post kc.
     MCTS_search g s n r = Some (Inr a) \<and>
     mcts_loop g n [UTCNode_init s None] r = Some (Inr (h, r')) \<and>
     children (h ! 0) = pre @ c # post \<and> a = children_actions (h ! 0) ! length pre \<and>
     (\<forall>x\<in>set (children (h ! 0)).
        uct h (sqrt 2) x =
          Inr (reward (h ! x) / real (visits (h ! x)) +
               sqrt 2 * sqrt (ln (real (visits (h ! 0))) / real (visits (h ! x))))) \<and>
     uct h (sqrt 2) c = Inr kc \<and>
     (\<forall>x\<in>set pre. \<exists>k. uct h (sqrt 2) x = Inr k \<and> k < kc) \<and>
     (\<forall>x\<in>set post. \<exists>k. uct h (sqrt 2) x = Inr k \<and> k \<le> kc)"
proof -
  let ?h0 = "[UTCNode_init s None] :: ('s, 'a) heap"
  have s0: "state (?h0 ! 0) = s" by (simp add: UTCNode_init_def)
  have ok0: "tree_ok g ?h0" by (rule tree_ok_init)
  from mcts_loop_total [OF gm ok0, of n r] obtain h r' where
    loop: "mcts_loop g n ?h0 r = Some (Inr (h, r'))" by blast
  from mcts_loop_ok [OF tree_ok_init loop] nt n s0 have
    ok: "tree_ok g h" and ne: "children (h ! 0) \<noteq> []" by simp_all
  from ok have z: "0 < length h" by (simp add: tree_ok_def)
  from root_decision_legal [OF ok ne, of "sqrt 2"] obtain a where
    dec: "root_decision h (sqrt 2) = Inr a" by blast
  with loop nt s0 have run: "MCTS_search g s n r = Some (Inr a)" by (simp add: MCTS_search_def)
  from dec obtain c k where
    bc: "best_child h 0 (sqrt 2) = Inr c" and ix: "index_of (children (h ! 0)) c = Inr k"
    and get: "list_get (children_actions (h ! 0)) k = Inr a"
    by (auto simp: root_decision_def split: sum.splits)
  from py_max_first [OF bc [unfolded best_child_def]] obtain pre post kc where
    d: "children (h ! 0) = pre @ c # post" "uct h (sqrt 2) c = Inr kc"
       "\<forall>x\<in>set pre. \<exists>k. uct h (sqrt 2) x = Inr k \<and> k < kc"
       "\<forall>x\<in>set post. \<exists>k. uct h (sqrt 2) x = Inr k \<and> k \<le> kc"
    by blast
  have "c \<notin> set pre"
  proof
    assume "c \<in> set pre"
    with d(3) obtain k' where "uct h (sqrt 2) c = Inr k'" "k' < kc" by blast
    with d(2) show False by simp
  qed
  from index_of_first [OF this, of post] ix d(1) have k: "k = length pre" by simp
  from get have a: "a = children_actions (h ! 0) ! k"
    by (simp add: list_get_def split: if_splits)
  have f: "\<forall>x\<in>set (children (h ! 0)).
        uct h (sqrt 2) x =
          Inr (reward (h ! x) / real (visits (h ! x)) +
               sqrt 2 * sqrt (ln (real (visits (h ! 0))) / real (visits (h ! x))))"
    using uct_value [OF ok z] by blast
  from run loop d a k f show ?thesis by blast
qed

section \<open>Expansion\<close>

text \<open>
  C7. \<open>is_expanded\<close> is true exactly when the node has as many recorded actions as its
  state has legal actions. \<open>expand\<close> appends one action and one child, the action legal and
  not recorded before. In every tree the loop of \<open>MCTS_search\<close> reaches, no node records
  an action twice, every node has one recorded action per child and at most as many as
  its state has legal actions.
\<close>

theorem expansion_never_repeats:
  fixes g :: "('s, 'a, 'l) game"
  shows
  "(is_expanded g h i \<longleftrightarrow>
      length (children_actions (h ! i)) = length (actions g (state (h ! i)))) \<and>
   (i < length h \<longrightarrow> expand g h i r = Inr (h', c, r') \<longrightarrow>
      (\<exists>a. children_actions (h' ! i) = children_actions (h ! i) @ [a] \<and>
           children (h' ! i) = children (h ! i) @ [c] \<and>
           a \<notin> set (children_actions (h ! i)) \<and> a \<in> set (actions g (state (h ! i))) \<and>
           state (h' ! i) = state (h ! i))) \<and>
   (mcts_loop g n [UTCNode_init s None] r0 = Some (Inr (h2, r2)) \<longrightarrow>
      (\<forall>j<length h2.
         distinct (children_actions (h2 ! j)) \<and>
         length (children (h2 ! j)) = length (children_actions (h2 ! j)) \<and>
         length (children_actions (h2 ! j)) \<le> length (actions g (state (h2 ! j)))))"
proof (intro conjI impI allI)
  show "is_expanded g h i \<longleftrightarrow>
      length (children_actions (h ! i)) = length (actions g (state (h ! i)))"
    by (simp add: is_expanded_def)
next
  assume i: "i < length h" and e: "expand g h i r = Inr (h', c, r')"
  from expand_Inr [OF i e] obtain a where
    a: "a \<in> set (actions g (state (h ! i)))" "a \<notin> set (children_actions (h ! i))"
    and h': "h' = add_child h i (result g (state (h ! i)) a) a" and c: "c = length h"
    by blast
  have "children_actions (h' ! i) = children_actions (h ! i) @ [a] \<and>
           children (h' ! i) = children (h ! i) @ [c] \<and>
           a \<notin> set (children_actions (h ! i)) \<and> a \<in> set (actions g (state (h ! i))) \<and>
           state (h' ! i) = state (h ! i)"
    using i a by (simp add: h' c add_child_fields)
  then show "\<exists>a. children_actions (h' ! i) = children_actions (h ! i) @ [a] \<and>
           children (h' ! i) = children (h ! i) @ [c] \<and>
           a \<notin> set (children_actions (h ! i)) \<and> a \<in> set (actions g (state (h ! i))) \<and>
           state (h' ! i) = state (h ! i)" ..
next
  fix j
  assume loop: "mcts_loop g n [UTCNode_init s None] r0 = Some (Inr (h2, r2))" and j: "j < length h2"
  from mcts_loop_ok [OF tree_ok_init loop] have ok: "tree_ok g h2" by simp
  note D = tree_okD [OF ok j]
  show "distinct (children_actions (h2 ! j))" by (rule D(3))
  show "length (children (h2 ! j)) = length (children_actions (h2 ! j))" by (rule D(2))
  have "length (children_actions (h2 ! j)) = card (set (children_actions (h2 ! j)))"
    using D(3) by (simp add: distinct_card)
  also have "\<dots> \<le> card (set (actions g (state (h2 ! j))))"
    using D(4) by (simp add: card_mono)
  also have "\<dots> \<le> length (actions g (state (h2 ! j)))" by (rule card_length)
  finally show "length (children_actions (h2 ! j)) \<le> length (actions g (state (h2 ! j)))" .
qed

theorem expansion_never_repeats_witness:
  "(\<exists>h' c r' a. expand fork [UTCNode_init 0 None] 0 zero_draws = Inr (h', c, r') \<and>
      children_actions (h' ! 0) = [a] \<and> a \<in> set (actions fork 0)) \<and>
   mcts_loop fork 3 [UTCNode_init 0 None] zero_draws = Some (Inr (fork_tree3, zero_draws)) \<and>
   distinct (children_actions (fork_tree3 ! 0)) \<and>
   length (children_actions (fork_tree3 ! 0)) \<le> length (actions fork (state (fork_tree3 ! 0)))"
proof -
  let ?h0 = "[UTCNode_init 0 None] :: (nat, nat) heap"
  have z: "0 < length ?h0" by simp
  have "\<not> is_expanded fork ?h0 0" "distinct (actions fork (state (?h0 ! 0)))"
    by (simp_all add: is_expanded_def UTCNode_init_def fork_def)
  from expand_total [OF tree_ok_init z this, of zero_draws] obtain h' c r' where
    e: "expand fork ?h0 0 zero_draws = Inr (h', c, r')" by blast
  note T = expansion_never_repeats [of fork ?h0 0 zero_draws h' c r' 3 0 zero_draws fork_tree3 zero_draws]
  from T [THEN conjunct2, THEN conjunct1, rule_format, OF z e] obtain a where
    "children_actions (h' ! 0) = children_actions (?h0 ! 0) @ [a]"
    "a \<in> set (actions fork (state (?h0 ! 0)))" by blast
  then have "children_actions (h' ! 0) = [a] \<and> a \<in> set (actions fork 0)"
    by (simp add: UTCNode_init_def)
  with e have 1: "\<exists>h' c r' a. expand fork ?h0 0 zero_draws = Inr (h', c, r') \<and>
      children_actions (h' ! 0) = [a] \<and> a \<in> set (actions fork 0)"
    by blast
  have l3: "0 < length fork_tree3" by (simp add: fork_tree3_def)
  from T [THEN conjunct2, THEN conjunct2, rule_format, OF fork_loop3 l3]
  have 2: "distinct (children_actions (fork_tree3 ! 0))"
    "length (children_actions (fork_tree3 ! 0)) \<le> length (actions fork (state (fork_tree3 ! 0)))"
    by simp_all
  from 1 2 fork_loop3 show ?thesis by blast
qed

section \<open>Visit counts\<close>

text \<open>
  C8. A node is created with \<open>visits = 1\<close>. In every tree the loop of \<open>MCTS_search\<close>
  reaches, every node has at least one visit, every child has its parent set, so that
  \<open>exploitation\<close> and \<open>exploration\<close> of every child return a number, and one more turn of the
  loop lowers no visit count. Neither the loop nor \<open>MCTS_search\<close> raises
  ZeroDivisionError.
\<close>

theorem visits_at_least_one:
  fixes g :: "('s, 'a, 'l) game"
  shows
  "visits (UTCNode_init s p :: ('s, 'a) UTCNode) = 1 \<and>
   (mcts_loop g n [UTCNode_init s None] r0 = Some (Inr (h, r)) \<longrightarrow>
      (\<forall>i<length h. 1 \<le> visits (h ! i) \<and>
         (\<forall>c\<in>set (children (h ! i)).
            c < length h \<and> parent (h ! c) = Some i \<and> 1 \<le> visits (h ! c) \<and>
            (\<exists>x. exploitation h c = Inr x) \<and> (\<exists>y. exploration h c = Inr y))) \<and>
      (\<forall>r1 h' r'. mcts_iteration g h r1 = Some (Inr (h', r')) \<longrightarrow>
         length h \<le> length h' \<and> (\<forall>i<length h. visits (h ! i) \<le> visits (h' ! i)))) \<and>
   mcts_loop g n [UTCNode_init s None] r0 \<noteq> Some (Inl ZeroDivisionError) \<and>
   MCTS_search g s n r0 \<noteq> Some (Inl ZeroDivisionError)"
proof (intro conjI impI allI ballI)
  show "visits (UTCNode_init s p :: ('s, 'a) UTCNode) = 1" by (simp add: UTCNode_init_def)
next
  fix i
  assume loop: "mcts_loop g n [UTCNode_init s None] r0 = Some (Inr (h, r))" and i: "i < length h"
  from mcts_loop_ok [OF tree_ok_init loop] have ok: "tree_ok g h" by simp
  show "1 \<le> visits (h ! i)" using ok i by (rule tree_okD)
  fix c assume c: "c \<in> set (children (h ! i))"
  note K = tree_okD(6) [OF ok i c]
  show cl: "c < length h" using K by simp
  show "1 \<le> visits (h ! c)" using ok cl by (rule tree_okD)
  show "parent (h ! c) = Some i" using K by simp
  show "\<exists>x. exploitation h c = Inr x" using uct_defined [OF ok i c] by simp
  show "\<exists>y. exploration h c = Inr y" using uct_defined [OF ok i c] by simp
next
  fix r1 h' r'
  assume loop: "mcts_loop g n [UTCNode_init s None] r0 = Some (Inr (h, r))"
    and it: "mcts_iteration g h r1 = Some (Inr (h', r'))"
  from mcts_loop_ok [OF tree_ok_init loop] have ok: "tree_ok g h" by simp
  note E = mcts_iteration_ok(2) [OF ok it]
  show "length h \<le> length h'" using E by (simp add: extends_def)
  fix i assume "i < length h"
  then show "visits (h ! i) \<le> visits (h' ! i)" using E by (simp add: extends_def)
next
  show "mcts_loop g n [UTCNode_init s None] r0 \<noteq> Some (Inl ZeroDivisionError)"
    using mcts_loop_error [OF tree_ok_init, of g n s r0 ZeroDivisionError] by auto
  show "MCTS_search g s n r0 \<noteq> Some (Inl ZeroDivisionError)"
    using MCTS_search_error [of g s n r0 ZeroDivisionError] by auto
qed

theorem visits_at_least_one_witness:
  "mcts_loop fork 3 [UTCNode_init 0 None] zero_draws = Some (Inr (fork_tree3, zero_draws)) \<and>
   1 \<le> visits (fork_tree3 ! 0) \<and> 1 \<le> visits (fork_tree3 ! 2) \<and>
   (\<exists>x. exploitation fork_tree3 2 = Inr x) \<and> (\<exists>y. exploration fork_tree3 2 = Inr y) \<and>
   MCTS_search fork 0 3 zero_draws \<noteq> Some (Inl ZeroDivisionError)"
proof -
  note T = visits_at_least_one [of 0 None fork 3 zero_draws fork_tree3 zero_draws]
  have l: "0 < length fork_tree3" by (simp add: fork_tree3_def)
  have c: "2 \<in> set (children (fork_tree3 ! 0))" by (simp add: fork_tree3_def)
  note A = T [THEN conjunct2, THEN conjunct1, rule_format, OF fork_loop3, THEN conjunct1,
      rule_format, OF l]
  from A have 1: "1 \<le> visits (fork_tree3 ! 0)" by simp
  from A [THEN conjunct2, rule_format, OF c] have
    2: "1 \<le> visits (fork_tree3 ! 2)" "\<exists>x. exploitation fork_tree3 2 = Inr x"
       "\<exists>y. exploration fork_tree3 2 = Inr y"
    by simp_all
  from T have 3: "MCTS_search fork 0 3 zero_draws \<noteq> Some (Inl ZeroDivisionError)" by simp
  from 1 2 3 fork_loop3 show ?thesis by simp
qed

section \<open>Antisymmetry of the static evaluation\<close>

text \<open>
  C9. For both player identities \<open>p\<close> in {0, 1}, \<open>score(state, p) = - score(state, 1 - p)\<close>:
  both calls return a number, and the numbers are opposite. The state may be any state,
  a non-terminal one in particular.
\<close>

theorem score_antisymmetric:
  "p = 0 \<or> p = 1 \<Longrightarrow>
     \<exists>x y. score g s p = Inr x \<and> score g s (1 - p) = Inr y \<and> x = - y"
  by (auto simp: score_def tuple_get_def)

theorem score_antisymmetric_witness:
  "score fork 0 0 = Inr 2 \<and> score fork 0 (1 - 0) = Inr (- 2)"
  using score_antisymmetric [of 0 fork 0]
  by (simp add: score_def tuple_get_def fork_def)

section \<open>Alpha-beta search on a state without legal actions\<close>

text \<open>
  C10. If a state has no legal actions, \<open>alpha_beta_search(state, depth)\<close> returns \<open>None\<close>
  for every depth: the loop over the actions never runs and \<open>best_move\<close> is still \<open>None\<close>.
\<close>

theorem alpha_beta_search_no_actions:
  "actions g s = [] \<Longrightarrow> alpha_beta_search g self_id s depth = Some (Inr None)"
  by (simp add: alpha_beta_search_def)

theorem alpha_beta_search_no_actions_witness:
  "actions fork 1 = [] \<and> alpha_beta_search fork 0 1 3 = Some (Inr None)"
  using alpha_beta_search_no_actions [of fork 1 0 3]
  by (simp add: fork_def)

section \<open>The move alpha-beta search returns\<close>

text \<open>
  C6. \<open>alpha_beta_search\<close> goes through every legal action of the root in the order of
  \<open>state.actions()\<close>, computes the value \<open>vs ! k\<close> of the \<open>k\<close>-th action by \<open>min_value\<close> at depth
  \<open>depth - 1\<close> (with \<open>alpha\<close> the greatest value seen before and \<open>beta\<close> infinite), and returns
  the action of the greatest value seen, the last one of them: no value before it is
  greater and every value after it is smaller; it returns \<open>None\<close> only when there is no
  action. For a player identity 0 or 1 and a depth of 1 or more the search does return.
  In the game \<open>three\<close> (three actions to terminal states of utility +1, -1, +1) the search
  of depth 1 returns the third action, of utility +1.
\<close>

theorem alpha_beta_search_last_maximal:
  "(p = 0 \<or> p = 1 \<longrightarrow> 1 \<le> depth \<longrightarrow> (\<exists>mv. alpha_beta_search g p s depth = Some (Inr mv))) \<and>
   (alpha_beta_search g p s depth = Some (Inr mv) \<longrightarrow>
     (\<exists>vs. length vs = length (actions g s) \<and>
        (\<forall>k<length (actions g s).
           min_value g (result g s (actions g s ! k)) p (depth - 1) (fold max (take k vs) MInf) PInf
             = Some (Inr (vs ! k))) \<and>
        (case mv of
           None \<Rightarrow> actions g s = []
         | Some a \<Rightarrow>
             \<exists>pre post vpre v vpost. actions g s = pre @ a # post \<and> vs = vpre @ v # vpost \<and>
               length vpre = length pre \<and> (\<forall>x\<in>set vpre. x \<le> v) \<and> (\<forall>x\<in>set vpost. x < v)))) \<and>
   alpha_beta_search three 0 0 1 = Some (Inr (Some 3)) \<and>
   utility three (result three 0 3) 0 = Fin 1"
proof (intro conjI impI)
  assume "p = 0 \<or> p = 1" "1 \<le> depth"
  from root_loop_total [OF this, of g s "actions g s" "(MInf, MInf, None)"]
  show "\<exists>mv. alpha_beta_search g p s depth = Some (Inr mv)"
    by (auto simp: alpha_beta_search_def)
next
  assume "alpha_beta_search g p s depth = Some (Inr mv)"
  then obtain alpha' bs' where
    "root_loop g p s depth (actions g s) (MInf, MInf, None) = Some (Inr (alpha', bs', mv))"
    by (auto simp: alpha_beta_search_def split: option.splits sum.splits)
  from root_loop_trace [OF this] obtain vs where
    len: "length vs = length (actions g s)"
    and vals: "\<forall>k<length (actions g s).
           min_value g (result g s (actions g s ! k)) p (depth - 1) (fold max (take k vs) MInf) PInf
             = Some (Inr (vs ! k))"
    and win: "(if \<exists>v\<in>set vs. MInf \<le> v
      then \<exists>pre a post vpre v vpost. actions g s = pre @ a # post \<and> vs = vpre @ v # vpost \<and>
             length vpre = length pre \<and> mv = Some a \<and> MInf \<le> v \<and>
             (\<forall>x\<in>set vpre. x \<le> v) \<and> (\<forall>x\<in>set vpost. x < v) \<and> alpha' = v
      else mv = None \<and> alpha' = MInf)"
    by blast
  have "case mv of
           None \<Rightarrow> actions g s = []
         | Some a \<Rightarrow>
             \<exists>pre post vpre v vpost. actions g s = pre @ a # post \<and> vs = vpre @ v # vpost \<and>
               length vpre = length pre \<and> (\<forall>x\<in>set vpre. x \<le> v) \<and> (\<forall>x\<in>set vpost. x < v)"
  proof (cases "vs = []")
    case True
    with win len show ?thesis by simp
  next
    case False
    then have ex: "\<exists>v\<in>set vs. MInf \<le> v" by (cases vs) auto
    from win have "\<exists>pre a post vpre v vpost. actions g s = pre @ a # post \<and> vs = vpre @ v # vpost \<and>
             length vpre = length pre \<and> mv = Some a \<and> MInf \<le> v \<and>
             (\<forall>x\<in>set vpre. x \<le> v) \<and> (\<forall>x\<in>set vpost. x < v) \<and> alpha' = v"
      by (simp only: ex if_True)
    then obtain pre a post vpre v vpost where
      d: "actions g s = pre @ a # post" "vs = vpre @ v # vpost" "length vpre = length pre"
         "\<forall>x\<in>set vpre. x \<le> v" "\<forall>x\<in>set vpost. x < v"
      and mv: "mv = Some a"
      by (elim exE conjE)
    from d have "\<exists>pre post vpre v vpost. actions g s = pre @ a # post \<and> vs = vpre @ v # vpost \<and>
               length vpre = length pre \<and> (\<forall>x\<in>set vpre. x \<le> v) \<and> (\<forall>x\<in>set vpost. x < v)"
      by (intro exI conjI)
    with mv show ?thesis by simp
  qed
  with len vals have "length vs = length (actions g s) \<and>
        (\<forall>k<length (actions g s).
           min_value g (result g s (actions g s ! k)) p (depth - 1) (fold max (take k vs) MInf) PInf
             = Some (Inr (vs ! k))) \<and>
        (case mv of
           None \<Rightarrow> actions g s = []
         | Some a \<Rightarrow>
             \<exists>pre post vpre v vpost. actions g s = pre @ a # post \<and> vs = vpre @ v # vpost \<and>
               length vpre = length pre \<and> (\<forall>x\<in>set vpre. x \<le> v) \<and> (\<forall>x\<in>set vpost. x < v))"
    by (intro conjI)
  then show "\<exists>vs. length vs = length (actions g s) \<and>
        (\<forall>k<length (actions g s).
           min_value g (result g s (actions g s ! k)) p (depth - 1) (fold max (take k vs) MInf) PInf
             = Some (Inr (vs ! k))) \<and>
        (case mv of
           None \<Rightarrow> actions g s = []
         | Some a \<Rightarrow>
             \<exists>pre post vpre v vpost. actions g s = pre @ a # post \<and> vs = vpre @ v # vpost \<and>
               length vpre = length pre \<and> (\<forall>x\<in>set vpre. x \<le> v) \<and> (\<forall>x\<in>set vpost. x < v))"
    by (rule exI)
next
  show "alpha_beta_search three 0 0 1 = Some (Inr (Some 3))"
    by (simp add: alpha_beta_search_def ab_eval three_def)
  show "utility three (result three 0 3) 0 = Fin 1"
    by (simp add: three_def)
qed

theorem alpha_beta_search_last_maximal_witness:
  "(\<exists>mv. alpha_beta_search three 0 0 1 = Some (Inr mv)) \<and>
   (\<exists>vs :: ext list. length vs = length (actions three 0) \<and>
      (\<exists>pre post vpre v vpost. actions three 0 = pre @ 3 # post \<and> vs = vpre @ v # vpost \<and>
          length vpre = length pre \<and> (\<forall>x\<in>set vpre. x \<le> v) \<and> (\<forall>x\<in>set vpost. x < v)))"
proof -
  have r: "alpha_beta_search three 0 0 1 = Some (Inr (Some 3))"
    by (simp add: alpha_beta_search_def ab_eval three_def)
  note T = alpha_beta_search_last_maximal [of 0 1 three 0 "Some 3"]
  from T [THEN conjunct1] have A: "\<exists>mv. alpha_beta_search three 0 0 1 = Some (Inr mv)"
    by simp
  from T [THEN conjunct2, THEN conjunct1, rule_format, OF r]
  obtain vs :: "ext list" where
    len: "length vs = length (actions three 0)"
    and dec: "case Some (3::nat) of None \<Rightarrow> actions three 0 = []
       | Some a \<Rightarrow> \<exists>pre post vpre v vpost. actions three 0 = pre @ a # post \<and> vs = vpre @ v # vpost \<and>
          length vpre = length pre \<and> (\<forall>x\<in>set vpre. x \<le> v) \<and> (\<forall>x\<in>set vpost. x < v)"
    by (elim exE conjE)
  from dec have "\<exists>pre post vpre v vpost. actions three 0 = pre @ 3 # post \<and> vs = vpre @ v # vpost \<and>
          length vpre = length pre \<and> (\<forall>x\<in>set vpre. x \<le> v) \<and> (\<forall>x\<in>set vpost. x < v)"
    by (simp only: option.case)
  with len have "length vs = length (actions three 0) \<and>
      (\<exists>pre post vpre v vpost. actions three 0 = pre @ 3 # post \<and> vs = vpre @ v # vpost \<and>
          length vpre = length pre \<and> (\<forall>x\<in>set vpre. x \<le> v) \<and> (\<forall>x\<in>set vpost. x < v))"
    by (rule conjI)
  then have "\<exists>vs :: ext list. length vs = length (actions three 0) \<and>
      (\<exists>pre post vpre v vpost. actions three 0 = pre @ 3 # post \<and> vs = vpre @ v # vpost \<and>
          length vpre = length pre \<and> (\<forall>x\<in>set vpre. x \<le> v) \<and> (\<forall>x\<in>set vpost. x < v))"
    by (rule exI)
  with A show ?thesis by (rule conjI)
qed

section \<open>The value of the move alpha-beta search returns\<close>

text \<open>
  C2. In the game \<open>trap\<close> the search of depth 2 returns move 2 and holds the value +1 for
  it (\<open>best_score\<close>), the number \<open>min_value\<close> returned for move 2 when it stopped at the
  opponent's first reply. Minimax without pruning gives move 2 the value -1 and move 1 the
  value +1: the value of the chosen move is not its minimax value, and the move is not
  the best one.
\<close>

theorem alpha_beta_search_trap:
  "alpha_beta_search trap 0 0 2 = Some (Inr (Some 2)) \<and>
   root_loop trap 0 0 2 (actions trap 0) (MInf, MInf, None) = Some (Inr (Fin 1, Fin 1, Some 2)) \<and>
   min_value trap (result trap 0 2) 0 (2 - 1) (Fin 1) PInf = Some (Inr (Fin 1)) \<and>
   minimax trap 0 False (nat (2 - 1)) (result trap 0 2) = Inr (Fin (- 1)) \<and>
   minimax trap 0 False (nat (2 - 1)) (result trap 0 1) = Inr (Fin 1)"
  by (simp add: alpha_beta_search_def ab_eval trap_def)

section \<open>Monte Carlo tree search on a terminal root\<close>

text \<open>
  C4, as the spec states it, fails on a terminal state without legal actions:
  \<open>random.choice\<close> is given the empty list and raises IndexError.
\<close>

theorem MCTS_search_terminal_no_actions:
  "terminal_test fork 1 \<and> actions fork 1 = [] \<and>
   MCTS_search fork 1 0 zero_draws = Some (Inl IndexError)"
  by (simp add: MCTS_search_def UTCNode_init_def random_choice_def fork_def)

lemma MCTS_search_run:
  "MCTS_search g s n r =
     (case MCTS_run g s n r of
        None \<Rightarrow> None
      | Some (Inl e) \<Rightarrow> Some (Inl e)
      | Some (Inr (a, h, r')) \<Rightarrow> Some (Inr a))"
  by (auto simp: MCTS_search_def MCTS_run_def Let_def split: option.splits sum.splits prod.splits)

lemma terminal_iteration:
  fixes g :: "('s, 'a, 'l) game"
  assumes ok: "tree_ok g h" and t: "terminal_test g (state (h ! 0))"
    and it: "mcts_iteration g h r = Some (Inr (h', r'))"
  shows "visits (h' ! 0) = visits (h ! 0) + 1"
proof -
  from ok have z: "0 < length h" by (simp add: tree_ok_def)
  from t have tp: "tree_policy g h 0 r = Some (Inr (h, 0, r))" by (simp add: tree_policy_unfold)
  with it obtain rw where bp: "backprop h (Some 0) rw = Some h'"
    by (auto simp: mcts_iteration_def split: option.splits sum.splits)
  from backprop_path [OF tree_ok_parents_below [OF ok] z, of rw] bp have
    "\<forall>k. ancestor h 0 k = Some 0 \<longrightarrow>
       h' ! 0 = (h ! 0)\<lparr>reward := reward (h ! 0) + rw * (- 1) ^ k, visits := visits (h ! 0) + 1\<rparr>"
    using z by auto
  from this [rule_format, of 0] show ?thesis by simp
qed

lemma terminal_loop_visits:
  fixes g :: "('s, 'a, 'l) game"
  assumes ok: "tree_ok g h" and t: "terminal_test g (state (h ! 0))" and k: "0 < k"
    and loop: "mcts_loop g k h r = Some (Inr (h', r'))"
  shows "visits (h ! 0) < visits (h' ! 0)"
proof -
  from k obtain k' where k': "k = Suc k'" by (cases k) auto
  with loop obtain h1 r1 where
    it: "mcts_iteration g h r = Some (Inr (h1, r1))"
    and rest: "mcts_loop g k' h1 r1 = Some (Inr (h', r'))"
    by (auto split: option.splits sum.splits)
  from terminal_iteration [OF ok t it] have v1: "visits (h1 ! 0) = visits (h ! 0) + 1" .
  from mcts_iteration_ok(1) [OF ok it] have ok1: "tree_ok g h1" .
  then have z1: "0 < length h1" by (simp add: tree_ok_def)
  from mcts_loop_ok [OF ok1 rest] have "extends h1 h'" by simp
  from extendsD(4) [OF this z1] v1 show ?thesis by simp
qed

lemma count_positions:
  "card {d. d < length xs \<and> xs ! d = a} = count_list xs a"
proof -
  have "count_list xs a = length (filter (\<lambda>x. x = a) xs)"
    by (induction xs) auto
  also have "\<dots> = card {d. d < length xs \<and> xs ! d = a}"
    by (rule length_filter_conv_card)
  finally show ?thesis by simp
qed

text \<open>
  C4, amended. If the root state is terminal and has at least one legal action,
  \<open>MCTS_search\<close> returns a uniformly random legal action of that state without entering
  the search loop. The action is \<open>random.choice(state.actions())\<close>, the action at the
  position the next draw gives modulo the length of the list: as the draw runs through
  one period, every action is returned once for each of its positions in the list (once
  when the list has no repetition). No turn of the loop is performed: the call leaves the
  tree as the constructor made it, a root with \<open>visits = 1\<close> and no child, and has taken one
  draw from the random source, whereas any positive number of turns of the loop on this
  root leaves it with more than one visit.
\<close>

theorem MCTS_search_terminal_root:
  fixes g :: "('s, 'a, 'l) game"
  assumes t: "terminal_test g s" and ne: "actions g s \<noteq> []"
  shows
    "MCTS_search g s n r = Some (Inr (actions g s ! (r 0 mod length (actions g s)))) \<and>
     actions g s ! (r 0 mod length (actions g s)) \<in> set (actions g s) \<and>
     MCTS_run g s n r =
       Some (Inr (actions g s ! (r 0 mod length (actions g s)), [UTCNode_init s None],
                  \<lambda>i. r (Suc i))) \<and>
     visits ([UTCNode_init s None :: ('s, 'a) UTCNode] ! 0) = 1 \<and>
     (\<forall>k r0 h r1. 0 < k \<longrightarrow> mcts_loop g k [UTCNode_init s None] r0 = Some (Inr (h, r1)) \<longrightarrow>
        1 < visits (h ! 0)) \<and>
     (\<forall>a. card {d. d < length (actions g s) \<and> MCTS_search g s n (\<lambda>i. d) = Some (Inr a)}
        = count_list (actions g s) a) \<and>
     (\<forall>a \<in> set (actions g s). \<exists>r'. MCTS_search g s n r' = Some (Inr a))"
proof (intro conjI ballI allI impI)
  show run: "\<And>r. MCTS_search g s n r = Some (Inr (actions g s ! (r 0 mod length (actions g s))))"
    using t ne by (simp add: MCTS_search_def UTCNode_init_def random_choice_def)
  show "actions g s ! (r 0 mod length (actions g s)) \<in> set (actions g s)"
    using ne by simp
  show "MCTS_run g s n r =
       Some (Inr (actions g s ! (r 0 mod length (actions g s)), [UTCNode_init s None],
                  \<lambda>i. r (Suc i)))"
    using t ne by (simp add: MCTS_run_def UTCNode_init_def random_choice_def)
  show "visits ([UTCNode_init s None :: ('s, 'a) UTCNode] ! 0) = 1"
    by (simp add: UTCNode_init_def)
next
  fix k r0 r1 and h :: "('s, 'a) heap"
  assume k: "0 < k" and loop: "mcts_loop g k [UTCNode_init s None] r0 = Some (Inr (h, r1))"
  let ?h0 = "[UTCNode_init s None] :: ('s, 'a) heap"
  have t0: "terminal_test g (state (?h0 ! 0))" using t by (simp add: UTCNode_init_def)
  from terminal_loop_visits [OF tree_ok_init t0 k loop]
  show "1 < visits (h ! 0)" by (simp add: UTCNode_init_def)
next
  fix a
  have run: "\<And>r. MCTS_search g s n r = Some (Inr (actions g s ! (r 0 mod length (actions g s))))"
    using t ne by (simp add: MCTS_search_def UTCNode_init_def random_choice_def)
  have "{d. d < length (actions g s) \<and> MCTS_search g s n (\<lambda>i. d) = Some (Inr a)}
      = {d. d < length (actions g s) \<and> actions g s ! d = a}"
    by (auto simp: run)
  then show "card {d. d < length (actions g s) \<and> MCTS_search g s n (\<lambda>i. d) = Some (Inr a)}
        = count_list (actions g s) a"
    by (simp add: count_positions)
next
  fix a assume "a \<in> set (actions g s)"
  then obtain k where k: "k < length (actions g s)" "actions g s ! k = a"
    by (auto simp: in_set_conv_nth)
  have run: "\<And>r. MCTS_search g s n r = Some (Inr (actions g s ! (r 0 mod length (actions g s))))"
    using t ne by (simp add: MCTS_search_def UTCNode_init_def random_choice_def)
  have "MCTS_search g s n (\<lambda>i. k) = Some (Inr a)"
    using run [of "\<lambda>i. k"] k by simp
  then show "\<exists>r'. MCTS_search g s n r' = Some (Inr a)" by blast
qed

theorem MCTS_search_terminal_root_witness:
  "terminal_test fork 3 \<and> actions fork 3 \<noteq> [] \<and>
   MCTS_search fork 3 5 zero_draws = Some (Inr 4) \<and> 4 \<in> set (actions fork 3) \<and>
   MCTS_run fork 3 5 zero_draws = Some (Inr (4, [UTCNode_init 3 None], zero_draws)) \<and>
   card {d. d < length (actions fork 3) \<and> MCTS_search fork 3 5 (\<lambda>i. d) = Some (Inr 5)} = 1 \<and>
   (\<exists>r'. MCTS_search fork 3 5 r' = Some (Inr 5))"
proof -
  have t: "terminal_test fork 3" and ne: "actions fork 3 \<noteq> []"
    by (simp_all add: fork_def)
  have acts: "actions fork 3 = [4, 5]"
    by (simp add: fork_def)
  note T = MCTS_search_terminal_root [OF t ne, of 5 zero_draws]
  from T have 1: "MCTS_search fork 3 5 zero_draws = Some (Inr 4)" "4 \<in> set (actions fork 3)"
    by (simp_all add: acts zero_draws_def)
  from T have 2: "MCTS_run fork 3 5 zero_draws = Some (Inr (4, [UTCNode_init 3 None], zero_draws))"
    by (simp add: acts zero_draws_def)
  from T have "card {d. d < length (actions fork 3) \<and> MCTS_search fork 3 5 (\<lambda>i. d) = Some (Inr 5)}
      = count_list (actions fork 3) 5" by blast
  then have 3: "card {d. d < length (actions fork 3) \<and> MCTS_search fork 3 5 (\<lambda>i. d) = Some (Inr 5)} = 1"
    by (simp add: acts)
  from T have "\<forall>a\<in>set (actions fork 3). \<exists>r'. MCTS_search fork 3 5 r' = Some (Inr a)" by blast
  then have 4: "\<exists>r'. MCTS_search fork 3 5 r' = Some (Inr 5)" by (simp add: acts)
  from t ne 1 2 3 4 show ?thesis by simp
qed


end
